theory Spec2Isabelle
  imports Main "HOL-Library.Word"
begin

section \<open>The ditto key-value store: data model\<close>

text \<open>
  A shallow embedding of \<^verbatim>\<open>src/C/src/ditto.c\<close>. The two mutexes are left out: the model is
  the sequential behaviour of one call at a time, which is what the locks serialise.

  Conventions of the embedding:
  \<^item> a pointer argument that the code tests against \<^verbatim>\<open>NULL\<close> is an \<open>option\<close> of what it
    points to (\<open>None\<close> is \<^verbatim>\<open>NULL\<close>); an in/out cell is passed as its content and returned
    updated;
  \<^item> a \<^verbatim>\<open>const char*\<close> is a \<open>string\<close>, read up to its first NUL character as C does;
  \<^item> a collision chain (\<^verbatim>\<open>kv_entry_t\<close> linked through \<^verbatim>\<open>next\<close>) is the list of its
    entries, head first;
  \<^item> a fixed-size C array is a function from the index, of which only the indices below
    the array's size are ever read or written;
  \<^item> a buffer is the list of its bytes and a \<^verbatim>\<open>size_t\<close> is a \<open>nat\<close>; a value is passed
    to \<^verbatim>\<open>ditto_put\<close> as the bytes at \<^verbatim>\<open>data\<close> and the length \<^verbatim>\<open>len\<close>, of which the first
    \<^verbatim>\<open>len\<close> bytes are stored;
  \<^item> \<^verbatim>\<open>malloc\<close>, \<^verbatim>\<open>calloc\<close> and \<^verbatim>\<open>strdup\<close> may fail: the outcomes of the coming allocation
    requests are an explicit argument, consumed one per request;
  \<^item> a callback is foreign code: an invocation is recorded as an event
    (function pointer, \<^verbatim>\<open>user_data\<close>, key), in the order the calls are made.
\<close>

type_synonym byte = "8 word"

text \<open>
  \<^verbatim>\<open>int32_t\<close>: a 32-bit word, read as two's complement by
  \<open>sint\<close>.
\<close>
type_synonym int32 = "32 word"
type_synonym uint32 = "32 word"

text \<open>
  Pointers to foreign objects (function pointers, \<^verbatim>\<open>void*\<close>):
  \<^verbatim>\<open>NULL\<close> or an address.
\<close>
datatype ptr = NULL | Addr nat

definition MAX_SUBSCRIPTIONS :: nat where
  "MAX_SUBSCRIPTIONS = 100"

definition HASH_SIZE :: nat where
  "HASH_SIZE = 256"

record kv_entry =
  key :: string
  data :: "byte list"
  len :: nat

record hash_table =
  buckets :: "nat \<Rightarrow> kv_entry list"

record subscription =
  id' :: int32
  callback :: ptr
  user_data :: ptr
  active :: int

record ditto_db =
  table :: hash_table
  subscriptions :: "nat \<Rightarrow> subscription"
  next_sub_id :: int32

text \<open>One callback invocation \<^verbatim>\<open>cb(user_data, key)\<close>.\<close>
type_synonym event = "ptr \<times> ptr \<times> string"

subsection \<open>The C library\<close>

text \<open>
  The allocator: the list holds the outcomes of the coming requests, \<open>True\<close> for a block,
  \<open>False\<close> for \<^verbatim>\<open>NULL\<close>; past the end of the list every request succeeds.
\<close>
type_synonym heap = "bool list"

fun malloc :: "heap \<Rightarrow> bool \<times> heap" where
  "malloc [] = (True, [])"
| "malloc (b # h) = (b, h)"

text \<open>The characters of a C string: those before the first NUL.\<close>
definition c_str :: "string \<Rightarrow> string" where
  "c_str s = takeWhile (\<lambda>c. c \<noteq> CHR 0x00) s"

text \<open>\<^verbatim>\<open>strcmp(a, b) == 0\<close>\<close>
definition strcmp_eq :: "string \<Rightarrow> string \<Rightarrow> bool" where
  "strcmp_eq a b \<longleftrightarrow> c_str a = c_str b"

text \<open>
  \<^verbatim>\<open>memcpy(dst, src, n)\<close>: the first \<open>n\<close> bytes of
  \<open>dst\<close> become those of \<open>src\<close>.
\<close>
definition memcpy :: "byte list \<Rightarrow> byte list \<Rightarrow> nat \<Rightarrow> byte list" where
  "memcpy dst src n = take n src @ drop n dst"

section \<open>Hash table\<close>

text \<open>
  \<^verbatim>\<open>hash_string\<close>: \<^verbatim>\<open>int c = *str++\<close> reads a \<^verbatim>\<open>char\<close>, taken here as signed (sign
  extended to 32 bits); the loop ends at the terminating NUL. The general properties below
  use of the hash only that it reads the key up to its NUL and stays below \<^verbatim>\<open>HASH_SIZE\<close>.
\<close>
fun hash_loop :: "uint32 \<Rightarrow> string \<Rightarrow> uint32" where
  "hash_loop hash [] = hash"
| "hash_loop hash (c # str) =
     (if c = CHR 0x00 then hash
      else hash_loop ((push_bit 5 hash + hash) + scast (of_char c :: byte)) str)"

definition hash_string :: "string \<Rightarrow> nat" where
  "hash_string str = unat (hash_loop 5381 str mod of_nat HASH_SIZE)"

definition hash_table_create :: "heap \<Rightarrow> hash_table option \<times> heap" where
  "hash_table_create h =
     (case malloc h of
        (False, h') \<Rightarrow> (None, h')
      | (True, h') \<Rightarrow> (Some \<lparr>buckets = (\<lambda>i. [])\<rparr>, h'))"

text \<open>
  The first loop of \<^verbatim>\<open>hash_table_put\<close>, over one chain: \<open>None\<close> when the chain has no
  entry for the key (the loop runs to its end), otherwise the status and the chain with
  the entry's value replaced, or untouched when \<^verbatim>\<open>malloc\<close> fails. The new block is
  written in full by \<^verbatim>\<open>memcpy\<close>, so what it held before (here \<open>[]\<close>) does not matter.
\<close>
fun put_existing ::
  "heap \<Rightarrow> kv_entry list \<Rightarrow> string \<Rightarrow> byte list \<Rightarrow> nat \<Rightarrow> (int32 \<times> kv_entry list \<times> heap) option"
where
  "put_existing h [] k d n = None"
| "put_existing h (entry # rest) k d n =
     (if strcmp_eq (key entry) k then
        (case malloc h of
           (False, h') \<Rightarrow> Some (-1, entry # rest, h')
         | (True, h') \<Rightarrow> Some (0, entry\<lparr>data := memcpy [] d n, len := n\<rparr> # rest, h'))
      else
        (case put_existing h rest k d n of
           None \<Rightarrow> None
         | Some (rc, rest', h') \<Rightarrow> Some (rc, entry # rest', h')))"

definition hash_table_put ::
  "heap \<Rightarrow> hash_table \<Rightarrow> string \<Rightarrow> byte list \<Rightarrow> nat \<Rightarrow> int32 \<times> hash_table \<times> heap"
where
  "hash_table_put h t k d n =
     (let idx = hash_string k in
      case put_existing h (buckets t idx) k d n of
        Some (rc, chain, h') \<Rightarrow> (rc, t\<lparr>buckets := (buckets t)(idx := chain)\<rparr>, h')
      | None \<Rightarrow>
          (case malloc h of
             (False, h1) \<Rightarrow> (-1, t, h1)
           | (True, h1) \<Rightarrow>
               (case malloc h1 of (key_ok, h2) \<Rightarrow>
                (case malloc h2 of (data_ok, h3) \<Rightarrow>
                   if \<not> key_ok \<or> \<not> data_ok then (-1, t, h3)
                   else
                     (0,
                      t\<lparr>buckets := (buckets t)
                          (idx := \<lparr>key = c_str k, data = memcpy [] d n, len = n\<rparr> # buckets t idx)\<rparr>,
                      h3)))))"

text \<open>
  The loop of \<^verbatim>\<open>hash_table_get\<close> over one chain; it returns the status, the output
  buffer and the in/out length as the call leaves them.
\<close>
fun get_chain ::
  "kv_entry list \<Rightarrow> string \<Rightarrow> byte list option \<Rightarrow> nat \<Rightarrow> int32 \<times> byte list option \<times> nat"
where
  "get_chain [] k out_buf inout_len = (2, out_buf, inout_len)"
| "get_chain (entry # rest) k out_buf inout_len =
     (if strcmp_eq (key entry) k then
        (case out_buf of
           None \<Rightarrow> (1, None, len entry)
         | Some buf \<Rightarrow>
             if inout_len < len entry then (1, Some buf, len entry)
             else (0, Some (memcpy buf (data entry) (len entry)), len entry))
      else get_chain rest k out_buf inout_len)"

definition hash_table_get ::
  "hash_table \<Rightarrow> string \<Rightarrow> byte list option \<Rightarrow> nat \<Rightarrow> int32 \<times> byte list option \<times> nat"
where
  "hash_table_get t k out_buf inout_len =
     get_chain (buckets t (hash_string k)) k out_buf inout_len"

text \<open>
  The loop of \<^verbatim>\<open>hash_table_delete\<close> over one chain: the chain with the first entry for
  the key unlinked, \<open>None\<close> when there is none.
\<close>
fun delete_chain :: "kv_entry list \<Rightarrow> string \<Rightarrow> kv_entry list option" where
  "delete_chain [] k = None"
| "delete_chain (entry # rest) k =
     (if strcmp_eq (key entry) k then Some rest
      else (case delete_chain rest k of
              None \<Rightarrow> None
            | Some rest' \<Rightarrow> Some (entry # rest')))"

definition hash_table_delete :: "hash_table \<Rightarrow> string \<Rightarrow> int32 \<times> hash_table" where
  "hash_table_delete t k =
     (let idx = hash_string k in
      case delete_chain (buckets t idx) k of
        Some chain \<Rightarrow> (0, t\<lparr>buckets := (buckets t)(idx := chain)\<rparr>)
      | None \<Rightarrow> (2, t))"

section \<open>Subscriptions\<close>

text \<open>
  The body of the loop of \<^verbatim>\<open>notify_subscribers\<close> for slot
  \<open>i\<close>.
\<close>
definition notify_slot :: "ditto_db \<Rightarrow> string \<Rightarrow> nat \<Rightarrow> event list" where
  "notify_slot db k i =
     (if active (subscriptions db i) \<noteq> 0 then
        (let sub = subscriptions db i in
         if callback sub \<noteq> NULL then [(callback sub, user_data sub, k)] else [])
      else [])"

definition notify_subscribers :: "ditto_db \<Rightarrow> string \<Rightarrow> event list" where
  "notify_subscribers db k = concat (map (notify_slot db k) [0..<MAX_SUBSCRIPTIONS])"

section \<open>Public API\<close>

definition ditto_open :: "heap \<Rightarrow> string option \<Rightarrow> bool \<Rightarrow> int32 \<times> ditto_db option \<times> heap" where
  "ditto_open h path out_db =
     (if path = None \<or> \<not> out_db then (-1, None, h)
      else
        (case malloc h of
           (False, h1) \<Rightarrow> (-1, None, h1)
         | (True, h1) \<Rightarrow>
             (case hash_table_create h1 of
                (None, h2) \<Rightarrow> (-1, None, h2)
              | (Some t, h2) \<Rightarrow>
                  (0,
                   Some \<lparr>table = t,
                         subscriptions =
                           (\<lambda>i. \<lparr>id' = 0, callback = NULL, user_data = NULL, active = 0\<rparr>),
                         next_sub_id = 1\<rparr>,
                   h2))))"

definition ditto_put ::
  "heap \<Rightarrow> ditto_db option \<Rightarrow> string option \<Rightarrow> byte list option \<Rightarrow> nat
     \<Rightarrow> int32 \<times> ditto_db option \<times> heap \<times> event list"
where
  "ditto_put h db k d n =
     (case (db, k, d) of
        (Some db', Some k', Some d') \<Rightarrow>
          (case hash_table_put h (table db') k' d' n of (rc, t, h') \<Rightarrow>
             (rc, Some (db'\<lparr>table := t\<rparr>), h',
              if rc = 0 then notify_subscribers db' k' else []))
      | _ \<Rightarrow> (-1, db, h, []))"

definition ditto_get ::
  "ditto_db option \<Rightarrow> string option \<Rightarrow> byte list option \<Rightarrow> nat option
     \<Rightarrow> int32 \<times> byte list option \<times> nat option"
where
  "ditto_get db k out_buf inout_len =
     (case (db, k, inout_len) of
        (Some db', Some k', Some cap) \<Rightarrow>
          (case hash_table_get (table db') k' out_buf cap of (rc, buf, n) \<Rightarrow> (rc, buf, Some n))
      | _ \<Rightarrow> (-1, out_buf, inout_len))"

definition ditto_delete ::
  "ditto_db option \<Rightarrow> string option \<Rightarrow> int32 \<times> ditto_db option \<times> event list"
where
  "ditto_delete db k =
     (case (db, k) of
        (Some db', Some k') \<Rightarrow>
          (case hash_table_delete (table db') k' of (rc, t) \<Rightarrow>
             (rc, Some (db'\<lparr>table := t\<rparr>),
              if rc = 0 then notify_subscribers db' k' else []))
      | _ \<Rightarrow> (-1, db, []))"

text \<open>
  \<^verbatim>\<open>ditto_subscribe\<close>: the loop leaves at the first inactive slot. \<^verbatim>\<open>next_sub_id++\<close> is
  an \<^verbatim>\<open>int32_t\<close> increment, modelled as two's complement wrap-around.
\<close>
definition ditto_subscribe ::
  "ditto_db option \<Rightarrow> ptr \<Rightarrow> ptr \<Rightarrow> int32 option \<Rightarrow> int32 \<times> ditto_db option \<times> int32 option"
where
  "ditto_subscribe db cb ud out_sub_id =
     (case (db, out_sub_id) of
        (Some db', Some _) \<Rightarrow>
          if cb = NULL then (-1, db, out_sub_id)
          else
            (case find (\<lambda>i. active (subscriptions db' i) = 0) [0..<MAX_SUBSCRIPTIONS] of
               Some i \<Rightarrow>
                 (0,
                  Some (db'\<lparr>subscriptions := (subscriptions db')
                               (i := \<lparr>id' = next_sub_id db', callback = cb,
                                      user_data = ud, active = 1\<rparr>),
                            next_sub_id := next_sub_id db' + 1\<rparr>),
                  Some (next_sub_id db'))
             | None \<Rightarrow> (-1, db, out_sub_id))
      | _ \<Rightarrow> (-1, db, out_sub_id))"

definition ditto_unsubscribe :: "ditto_db option \<Rightarrow> int32 \<Rightarrow> int32 \<times> ditto_db option" where
  "ditto_unsubscribe db sub_id =
     (case db of
        None \<Rightarrow> (-1, None)
      | Some db' \<Rightarrow>
          (case find (\<lambda>i. active (subscriptions db' i) \<noteq> 0 \<and> id' (subscriptions db' i) = sub_id)
                  [0..<MAX_SUBSCRIPTIONS] of
             Some i \<Rightarrow>
               (0,
                Some (db'\<lparr>subscriptions := (subscriptions db')
                             (i := (subscriptions db' i)
                                     \<lparr>active := 0, callback := NULL, user_data := NULL\<rparr>)\<rparr>))
           | None \<Rightarrow> (-1, db)))"

section \<open>Vocabulary of the properties\<close>

text \<open>
  The store as \<^verbatim>\<open>ditto_open\<close> leaves it: no entry, no active slot,
  next id 1.
\<close>
definition fresh_db :: ditto_db where
  "fresh_db =
     \<lparr>table = \<lparr>buckets = (\<lambda>i. [])\<rparr>,
      subscriptions = (\<lambda>i. \<lparr>id' = 0, callback = NULL, user_data = NULL, active = 0\<rparr>),
      next_sub_id = 1\<rparr>"

text \<open>The live entry of a key: the one the scan of the key's bucket reaches first.\<close>
definition live_entry :: "ditto_db \<Rightarrow> string \<Rightarrow> kv_entry option" where
  "live_entry db k = find (\<lambda>e. strcmp_eq (key e) k) (buckets (table db) (hash_string k))"

text \<open>
  Every active slot holds a callback: what \<^verbatim>\<open>ditto_subscribe\<close>
  establishes, since it refuses a NULL callback.
\<close>
definition callbacks_set :: "ditto_db \<Rightarrow> bool" where
  "callbacks_set db \<longleftrightarrow>
     (\<forall>i \<in> set [0..<MAX_SUBSCRIPTIONS].
        active (subscriptions db i) \<noteq> 0 \<longrightarrow> callback (subscriptions db i) \<noteq> NULL)"

text \<open>The active slots, in slot order.\<close>
definition active_slots :: "ditto_db \<Rightarrow> nat list" where
  "active_slots db = filter (\<lambda>i. active (subscriptions db i) \<noteq> 0) [0..<MAX_SUBSCRIPTIONS]"

text \<open>
  One call per active slot, with the slot's callback and context, in slot order.
\<close>
definition active_calls :: "ditto_db \<Rightarrow> string \<Rightarrow> event list" where
  "active_calls db k =
     map (\<lambda>i. (callback (subscriptions db i), user_data (subscriptions db i), k)) (active_slots db)"

text \<open>
  A store with two subscriptions, as two calls of \<^verbatim>\<open>ditto_subscribe\<close>
  on a fresh store leave it.
\<close>
definition two_subs :: ditto_db where
  "two_subs = fresh_db\<lparr>subscriptions := (subscriptions fresh_db)
      (0 := \<lparr>id' = 1, callback = Addr 11, user_data = Addr 21, active = 1\<rparr>,
       1 := \<lparr>id' = 2, callback = Addr 12, user_data = NULL, active = 1\<rparr>),
      next_sub_id := 3\<rparr>"

text \<open>The same store holding the key \<open>x\<close>.\<close>
definition two_subs_x :: ditto_db where
  "two_subs_x = two_subs\<lparr>table := \<lparr>buckets = (\<lambda>i. [])
               (hash_string ''x'' := [\<lparr>key = ''x'', data = [5, 6], len = 2\<rparr>])\<rparr>\<rparr>"

text \<open>
  The invariant of the table: within a bucket no two entries have the same key, and every
  entry sits in the bucket of its key's hash.
\<close>
definition table_ok :: "hash_table \<Rightarrow> bool" where
  "table_ok t \<longleftrightarrow>
     (\<forall>i \<in> set [0..<HASH_SIZE].
        distinct (map (\<lambda>e. c_str (key e)) (buckets t i)) \<and>
        (\<forall>e \<in> set (buckets t i). hash_string (key e) = i))"

text \<open>Some bucket of the table holds an entry for the key.\<close>
definition has_entry :: "hash_table \<Rightarrow> string \<Rightarrow> bool" where
  "has_entry t k \<longleftrightarrow>
     (\<exists>i \<in> set [0..<HASH_SIZE]. \<exists>e \<in> set (buckets t i). strcmp_eq (key e) k)"




text \<open>
  The slot that \<^verbatim>\<open>ditto_unsubscribe\<close> finds for an id: the first
  active slot holding it.
\<close>
definition slot_of :: "ditto_db \<Rightarrow> int32 \<Rightarrow> nat option" where
  "slot_of db S =
     find (\<lambda>i. active (subscriptions db i) \<noteq> 0 \<and> id' (subscriptions db i) = S)
       [0..<MAX_SUBSCRIPTIONS]"

text \<open>The calls the fan-out makes from every slot but slot \<open>i\<close>.\<close>
definition calls_except :: "ditto_db \<Rightarrow> nat \<Rightarrow> string \<Rightarrow> event list" where
  "calls_except db i k =
     concat (map (notify_slot db k) (filter (\<lambda>j. j \<noteq> i) [0..<MAX_SUBSCRIPTIONS]))"

text \<open>A caller that subscribes and at once unsubscribes the id it was given.\<close>
definition subscribe_unsubscribe :: "ditto_db option \<Rightarrow> ditto_db option" where
  "subscribe_unsubscribe db =
     (case ditto_subscribe db (Addr 1) NULL (Some 0) of
        (rc, db', Some sub_id) \<Rightarrow> snd (ditto_unsubscribe db' sub_id)
      | (rc, db', None) \<Rightarrow> db')"

text \<open>
  A store with no entry and no active slot, whose slot 0 last held the id \<open>a\<close>
  and whose next id is \<open>c\<close>.
\<close>
definition idle_db :: "int32 \<Rightarrow> int32 \<Rightarrow> ditto_db" where
  "idle_db a c =
     fresh_db\<lparr>subscriptions := (subscriptions fresh_db)
                 (0 := \<lparr>id' = a, callback = NULL, user_data = NULL, active = 0\<rparr>),
              next_sub_id := c\<rparr>"

text \<open>
  The ids in use: the counter is at least 1, every active id lies between 1 and the counter
  (as signed numbers), and no two active slots hold the same id.
\<close>
definition ids_ok :: "ditto_db \<Rightarrow> bool" where
  "ids_ok db \<longleftrightarrow>
     1 \<le> sint (next_sub_id db) \<and>
     (\<forall>i \<in> set [0..<MAX_SUBSCRIPTIONS].
        active (subscriptions db i) \<noteq> 0 \<longrightarrow>
          1 \<le> sint (id' (subscriptions db i)) \<and>
          sint (id' (subscriptions db i)) < sint (next_sub_id db)) \<and>
     (\<forall>i \<in> set [0..<MAX_SUBSCRIPTIONS]. \<forall>j \<in> set [0..<MAX_SUBSCRIPTIONS].
        active (subscriptions db i) \<noteq> 0 \<and> active (subscriptions db j) \<noteq> 0 \<and>
        id' (subscriptions db i) = id' (subscriptions db j) \<longrightarrow> i = j)"

text \<open>
  A mutation of the table by a caller: a put (with the outcomes of its allocation
  requests, the key, the bytes and the length) or a delete.
\<close>
datatype store_op = Put heap string "byte list" nat | Delete string

text \<open>
  The key a mutation names.
\<close>
fun op_key :: "store_op \<Rightarrow> string" where
  "op_key (Put h k d n) = k"
| "op_key (Delete k) = k"

text \<open>
  The call that a mutation stands for: its status and the store it leaves.
\<close>
fun apply_op :: "ditto_db option \<Rightarrow> store_op \<Rightarrow> int32 \<times> ditto_db option" where
  "apply_op db (Put h k d n) =
     (case ditto_put h db (Some k) (Some d) n of (rc, db', h', evs) \<Rightarrow> (rc, db'))"
| "apply_op db (Delete k) =
     (case ditto_delete db (Some k) of (rc, db', evs) \<Rightarrow> (rc, db'))"

text \<open>
  A caller that makes the mutations one after the other.
\<close>
fun run :: "ditto_db option \<Rightarrow> store_op list \<Rightarrow> ditto_db option" where
  "run db [] = db"
| "run db (x # xs) = run (snd (apply_op db x)) xs"

text \<open>
  Whether a key is stored after a history of mutations, told from the statuses alone: a
  successful put of the key stores it, a successful delete of the key removes it, and
  every other call leaves it as it was (\<open>p\<close>: whether it was stored at the start).
\<close>
fun stored :: "bool \<Rightarrow> ditto_db option \<Rightarrow> store_op list \<Rightarrow> string \<Rightarrow> bool" where
  "stored p db [] K = p"
| "stored p db (x # xs) K =
     stored
       (if fst (apply_op db x) = 0 \<and> strcmp_eq (op_key x) K
        then (case x of Put h k d n \<Rightarrow> True | Delete k \<Rightarrow> False)
        else p)
       (snd (apply_op db x)) xs K"

text \<open>
  A store whose slot 0 holds an active subscription with the id 1, whose slot 1 is
  inactive and last held the id \<open>a\<close>, and whose next id is \<open>c\<close>.
\<close>
definition kept_db :: "int32 \<Rightarrow> int32 \<Rightarrow> ditto_db" where
  "kept_db a c =
     fresh_db\<lparr>subscriptions := (subscriptions fresh_db)
                 (0 := \<lparr>id' = 1, callback = Addr 2, user_data = NULL, active = 1\<rparr>,
                  1 := \<lparr>id' = a, callback = NULL, user_data = NULL, active = 0\<rparr>),
              next_sub_id := c\<rparr>"

section \<open>Opening a store\<close>

lemma ditto_open_fresh:
  "ditto_open h path out_db = (rc, Some db, h') \<Longrightarrow> rc = 0 \<and> db = fresh_db"
  by (auto simp: ditto_open_def hash_table_create_def fresh_db_def
      split: if_splits prod.splits bool.splits option.splits)

lemma ditto_open_ok: "ditto_open [] (Some p) True = (0, Some fresh_db, [])"
  by (simp add: ditto_open_def hash_table_create_def fresh_db_def)

section \<open>Reading\<close>

lemma get_chain_find:
  "get_chain es k out_buf cap =
     (case find (\<lambda>e. strcmp_eq (key e) k) es of
        None \<Rightarrow> (2, out_buf, cap)
      | Some e \<Rightarrow>
          (case out_buf of
             None \<Rightarrow> (1, None, len e)
           | Some buf \<Rightarrow>
               if cap < len e then (1, Some buf, len e)
               else (0, Some (memcpy buf (data e) (len e)), len e)))"
  by (induction es) simp_all

lemma ditto_get_live:
  "ditto_get (Some db) (Some k) out_buf (Some cap) =
     (case live_entry db k of
        None \<Rightarrow> (2, out_buf, Some cap)
      | Some e \<Rightarrow>
          (case out_buf of
             None \<Rightarrow> (1, None, Some (len e))
           | Some buf \<Rightarrow>
               if cap < len e then (1, Some buf, Some (len e))
               else (0, Some (memcpy buf (data e) (len e)), Some (len e))))"
  by (simp add: ditto_get_def hash_table_get_def live_entry_def get_chain_find
      split: option.splits)

section \<open>Writing\<close>

lemma malloc_used:
  "malloc h = (b, h') \<Longrightarrow>
     h = take (length h - length h') h @ h' \<and>
     (b \<longleftrightarrow> False \<notin> set (take (length h - length h') h))"
  by (cases h) auto

lemma malloc_cases: "malloc h = (b, h') \<Longrightarrow> (h = [] \<and> b \<and> h' = []) \<or> h = b # h'"
  by (cases h) auto

lemma put_existing_None:
  "put_existing h es k d n = None \<longleftrightarrow> find (\<lambda>e. strcmp_eq (key e) k) es = None"
  by (induction es) (auto split: prod.splits bool.splits option.splits)

lemma put_existing_fail:
  "put_existing h es k d n = Some (rc, es', h') \<Longrightarrow> rc \<noteq> 0 \<Longrightarrow> es' = es"
  by (induction es arbitrary: es') (auto split: prod.splits bool.splits option.splits if_splits)

lemma put_existing_used:
  "put_existing h es k d n = Some (rc, es', h') \<Longrightarrow>
     rc = (if False \<in> set (take (length h - length h') h) then -1 else 0)"
  by (induction es arbitrary: es')
     (auto split: prod.splits bool.splits option.splits if_splits dest: malloc_used)

lemma put_existing_ok:
  "put_existing h es k d n = Some (0, es', h') \<Longrightarrow>
     \<exists>e. find (\<lambda>e. strcmp_eq (key e) k) es = Some e \<and>
         find (\<lambda>e. strcmp_eq (key e) k) es' = Some (e\<lparr>data := take n d, len := n\<rparr>)"
  by (induction es arbitrary: es')
     (auto simp: memcpy_def split: prod.splits bool.splits option.splits if_splits)

lemma hash_table_put_fail:
  "hash_table_put h t k d n = (rc, t', h') \<Longrightarrow> rc \<noteq> 0 \<Longrightarrow> t' = t"
  by (auto simp: hash_table_put_def Let_def dest: put_existing_fail
      split: prod.splits bool.splits option.splits if_splits)

lemma hash_table_put_used:
  "hash_table_put h t k d n = (rc, t', h') \<Longrightarrow>
     rc = (if False \<in> set (take (length h - length h') h) then -1 else 0)"
  apply (simp add: hash_table_put_def Let_def split: option.splits prod.splits bool.splits if_splits)
  apply (auto dest!: put_existing_used malloc_cases split: if_splits)
  done

lemma c_str_idem: "c_str (c_str s) = c_str s"
  by (simp add: c_str_def)

lemma strcmp_eq_strdup: "strcmp_eq (c_str k) k"
  by (simp add: strcmp_eq_def c_str_idem)

lemma hash_table_put_ok:
  "hash_table_put h t k d n = (0, t', h') \<Longrightarrow>
     \<exists>e. find (\<lambda>e. strcmp_eq (key e) k) (buckets t' (hash_string k)) = Some e \<and>
         data e = take n d \<and> len e = n"
  by (auto simp: hash_table_put_def Let_def strcmp_eq_strdup memcpy_def dest!: put_existing_ok
      split: prod.splits bool.splits option.splits if_splits)

lemma ditto_put_ok:
  "ditto_put h dbo ko d_o n = (0, dbo', h', evs) \<Longrightarrow>
     \<exists>db k d db' e. dbo = Some db \<and> ko = Some k \<and> d_o = Some d \<and> dbo' = Some db' \<and>
        live_entry db' k = Some e \<and> data e = take n d \<and> len e = n \<and>
        subscriptions db' = subscriptions db \<and> next_sub_id db' = next_sub_id db"
  by (auto simp: ditto_put_def live_entry_def dest!: hash_table_put_ok
      split: prod.splits option.splits)

text \<open>The unfolding that evaluates a call on a concrete store.\<close>
lemmas put_eval = ditto_put_def hash_table_put_def hash_string_def HASH_SIZE_def fresh_db_def
  memcpy_def c_str_def strcmp_eq_def notify_subscribers_def notify_slot_def MAX_SUBSCRIPTIONS_def

section \<open>Values, buffers and statuses\<close>



text \<open>
  C3 (buffer too small). For every store in which key \<open>K\<close> has the live entry \<open>e\<close>:
  a \<open>get\<close> with capacity below \<open>len e\<close> returns status 1 (BufferTooSmall), writes
  \<open>len e\<close> to the in/out length and returns the destination buffer as it was (nothing is
  copied); and every \<open>get\<close> of \<open>K\<close> returns 0 (Ok) or 1 and leaves the entry's length in
  the in/out length.
\<close>
theorem C3_buffer_too_small:
  assumes "live_entry db K = Some e"
  shows "(cap < len e \<longrightarrow>
            ditto_get (Some db) (Some K) out_buf (Some cap) = (1, out_buf, Some (len e)))
       \<and> (fst (ditto_get (Some db) (Some K) out_buf (Some cap)) = 0
            \<or> fst (ditto_get (Some db) (Some K) out_buf (Some cap)) = 1)
       \<and> snd (snd (ditto_get (Some db) (Some K) out_buf (Some cap))) = Some (len e)"
  using assms by (simp add: ditto_get_live split: option.splits)

theorem C3_witness:
  "ditto_get (fst (snd (ditto_put [] (Some fresh_db) (Some ''a'') (Some [1, 2, 3]) 3)))
     (Some ''a'') (Some [7, 7]) (Some 2) = (1, Some [7, 7], Some 3)"
proof -
  let ?db = "fresh_db\<lparr>table :=
    \<lparr>buckets = (\<lambda>i. [])(6 := [\<lparr>key = ''a'', data = [1, 2, 3], len = 3\<rparr>])\<rparr>\<rparr>"
  have db: "fst (snd (ditto_put [] (Some fresh_db) (Some ''a'') (Some [1, 2, 3]) 3)) = Some ?db"
    by (simp add: put_eval)
  have live: "live_entry ?db ''a'' = Some \<lparr>key = ''a'', data = [1, 2, 3], len = 3\<rparr>"
    by (simp add: live_entry_def put_eval)
  show ?thesis
    using C3_buffer_too_small [OF live, of 2 "Some [7, 7]"] by (simp add: db)
qed

text \<open>
  C6 (no partial effect on error). A \<open>put\<close> that returns a status other than 0, whatever
  the cause (a NULL argument or a failed allocation), returns the store exactly as it
  was, and so do a \<open>delete\<close> and an \<open>unsubscribe\<close> that return a status other than 0.
\<close>
theorem C6_failure_leaves_state:
  "(fst (ditto_put h db k d n) \<noteq> 0 \<longrightarrow> fst (snd (ditto_put h db k d n)) = db)
   \<and> (fst (ditto_delete db k) \<noteq> 0 \<longrightarrow> fst (snd (ditto_delete db k)) = db)
   \<and> (fst (ditto_unsubscribe db s) \<noteq> 0 \<longrightarrow> snd (ditto_unsubscribe db s) = db)"
proof (intro conjI impI)
  assume "fst (ditto_put h db k d n) \<noteq> 0"
  then show "fst (snd (ditto_put h db k d n)) = db"
    by (auto simp: ditto_put_def split: option.splits prod.splits dest: hash_table_put_fail)
next
  assume "fst (ditto_delete db k) \<noteq> 0"
  then show "fst (snd (ditto_delete db k)) = db"
    by (auto simp: ditto_delete_def hash_table_delete_def Let_def split: option.splits prod.splits)
next
  assume "fst (ditto_unsubscribe db s) \<noteq> 0"
  then show "snd (ditto_unsubscribe db s) = db"
    by (auto simp: ditto_unsubscribe_def split: option.splits)
qed

theorem C6_witness:
  "fst (snd (ditto_put [False]
       (fst (snd (ditto_put [] (Some fresh_db) (Some ''a'') (Some [1, 2, 3]) 3)))
       (Some ''a'') (Some [9]) 1))
     = fst (snd (ditto_put [] (Some fresh_db) (Some ''a'') (Some [1, 2, 3]) 3))
   \<and> fst (snd (ditto_delete (Some fresh_db) (Some ''a''))) = Some fresh_db
   \<and> snd (ditto_unsubscribe (Some fresh_db) 7) = Some fresh_db"
proof -
  let ?db = "fst (snd (ditto_put [] (Some fresh_db) (Some ''a'') (Some [1, 2, 3]) 3))"
  have 1: "fst (ditto_put [False] ?db (Some ''a'') (Some [9]) 1) \<noteq> 0"
    by (simp add: put_eval)
  have 2: "fst (ditto_delete (Some fresh_db) (Some ''a'')) \<noteq> 0"
    by (simp add: ditto_delete_def hash_table_delete_def fresh_db_def)
  have 3: "fst (ditto_unsubscribe (Some fresh_db) 7) \<noteq> 0"
    by (simp add: ditto_unsubscribe_def fresh_db_def find_None_iff split: option.splits)
  show ?thesis
    using C6_failure_leaves_state [of "[False]" ?db "Some ''a''" "Some [9]" 1]
      C6_failure_leaves_state [of _ "Some fresh_db" "Some ''a''" _ _ 7]
      1 2 3 by blast
qed

text \<open>
  C7, as stated (the status of a put that fails for lack of memory differs from the
  status of a put that fails argument validation), does not hold: on a fresh store, a
  put whose first allocation fails and a put with a NULL key return the same status.
\<close>
theorem C7_same_status_counterexample:
  "\<not> (fst (ditto_put [False] (Some fresh_db) (Some ''a'') (Some [1]) 1)
        \<noteq> fst (ditto_put [] (Some fresh_db) None (Some [1]) 1))"
  by (simp add: put_eval)

text \<open>
  C7, amended. A put returns 0 or -1. It returns -1 when the handle, the key or the data
  pointer is NULL, and also when one of the allocation requests it makes fails (the
  requests made are the outcomes the call consumed). The status -1 differs from 0 (Ok),
  1 (BufferTooSmall) and 2 (NotFound), and is the one error status of put: the cause of
  the failure cannot be read from it.
\<close>
theorem C7_failed_put_status:
  assumes "ditto_put h db k d n = (rc, db', h', evs)"
  shows "(rc = 0 \<or> rc = -1)
       \<and> (db = None \<or> k = None \<or> d = None \<longrightarrow> rc = -1)
       \<and> (False \<in> set (take (length h - length h') h) \<longrightarrow> rc = -1)
       \<and> (-1 :: int32) \<noteq> 0 \<and> (-1 :: int32) \<noteq> 1 \<and> (-1 :: int32) \<noteq> 2"
proof -
  have "rc = 0 \<or> rc = -1"
    using assms
    by (auto simp: ditto_put_def split: option.splits prod.splits if_splits
        dest!: hash_table_put_used)
  moreover have "db = None \<or> k = None \<or> d = None \<longrightarrow> rc = -1"
    using assms by (auto simp: ditto_put_def split: option.splits prod.splits)
  moreover have "False \<in> set (take (length h - length h') h) \<longrightarrow> rc = -1"
    using assms
    by (auto simp: ditto_put_def split: option.splits prod.splits dest: hash_table_put_used)
  ultimately show ?thesis by simp
qed

theorem C7_witness:
  "fst (ditto_put [True, False] (Some fresh_db) (Some ''a'') (Some [1]) 1) = -1
   \<and> fst (ditto_put [] None (Some ''a'') (Some [1]) 1) = -1"
proof -
  let ?r = "ditto_put [True, False] (Some fresh_db) (Some ''a'') (Some [1]) 1"
  have r: "?r = (fst ?r, fst (snd ?r), fst (snd (snd ?r)), snd (snd (snd ?r)))"
    by simp
  have used: "False \<in> set (take (length [True, False] - length (fst (snd (snd ?r)))) [True, False])"
    by (simp add: put_eval)
  let ?q = "ditto_put [] None (Some ''a'') (Some [1]) 1"
  have q: "?q = (fst ?q, fst (snd ?q), fst (snd (snd ?q)), snd (snd (snd ?q)))"
    by simp
  show ?thesis
    using C7_failed_put_status [OF r] C7_failed_put_status [OF q] used by blast
qed

text \<open>
  C10 (size query). For every store in which key \<open>K\<close> has the live entry \<open>e\<close>, a \<open>get\<close>
  with a NULL output buffer and a non-NULL length pointer returns status 1
  (BufferTooSmall) and writes \<open>len e\<close> to the in/out length, whatever that length held
  before; nothing is copied. With a valid handle, key and length pointer, a NULL output
  buffer never yields the argument error -1.
\<close>
theorem C10_null_buffer_queries_size:
  "(live_entry db K = Some e \<longrightarrow>
      ditto_get (Some db) (Some K) None (Some cap) = (1, None, Some (len e)))
   \<and> fst (ditto_get (Some db) (Some K) None (Some cap)) \<noteq> -1"
  by (simp add: ditto_get_live split: option.splits)

theorem C10_witness:
  "ditto_get (fst (snd (ditto_put [] (Some fresh_db) (Some ''a'') (Some [1, 2, 3]) 3)))
     (Some ''a'') None (Some 50) = (1, None, Some 3)"
proof -
  let ?db = "fresh_db\<lparr>table :=
    \<lparr>buckets = (\<lambda>i. [])(6 := [\<lparr>key = ''a'', data = [1, 2, 3], len = 3\<rparr>])\<rparr>\<rparr>"
  have db: "fst (snd (ditto_put [] (Some fresh_db) (Some ''a'') (Some [1, 2, 3]) 3)) = Some ?db"
    by (simp add: put_eval)
  have live: "live_entry ?db ''a'' = Some \<lparr>key = ''a'', data = [1, 2, 3], len = 3\<rparr>"
    by (simp add: live_entry_def put_eval)
  show ?thesis
    using C10_null_buffer_queries_size [of ?db "''a''" _ 50] live by (simp add: db)
qed

section \<open>Notification\<close>

lemma concat_map_filter:
  "(\<And>x. x \<in> set xs \<Longrightarrow> f x = (if P x then [g x] else [])) \<Longrightarrow>
     concat (map f xs) = map g (filter P xs)"
  by (induction xs) simp_all

lemma notify_active_calls:
  assumes "callbacks_set db"
  shows "notify_subscribers db k = active_calls db k"
  unfolding notify_subscribers_def active_calls_def active_slots_def
  by (rule concat_map_filter) (use assms in \<open>auto simp: callbacks_set_def notify_slot_def Let_def\<close>)

lemma active_slots_props:
  "distinct (active_slots db) \<and> sorted (active_slots db) \<and>
   set (active_slots db) = {i. i < MAX_SUBSCRIPTIONS \<and> active (subscriptions db i) \<noteq> 0}"
  by (auto simp: active_slots_def sorted_wrt_filter)

lemma callbacks_set_fresh: "callbacks_set fresh_db"
  by (simp add: callbacks_set_def fresh_db_def)

lemma callbacks_set_subscribe:
  "callbacks_set db \<Longrightarrow> ditto_subscribe (Some db) cb ud out = (rc, Some db', out') \<Longrightarrow> callbacks_set db'"
  by (auto simp: callbacks_set_def ditto_subscribe_def split: option.splits if_splits)

lemma callbacks_set_unsubscribe:
  "callbacks_set db \<Longrightarrow> ditto_unsubscribe (Some db) s = (rc, Some db') \<Longrightarrow> callbacks_set db'"
  by (auto simp: callbacks_set_def ditto_unsubscribe_def split: option.splits if_splits)

lemma ditto_put_subscriptions:
  "ditto_put h (Some db) k d n = (rc, Some db', h', evs) \<Longrightarrow>
     subscriptions db' = subscriptions db \<and> next_sub_id db' = next_sub_id db"
  by (auto simp: ditto_put_def split: option.splits prod.splits)

lemma ditto_delete_subscriptions:
  "ditto_delete (Some db) k = (rc, Some db', evs) \<Longrightarrow>
     subscriptions db' = subscriptions db \<and> next_sub_id db' = next_sub_id db"
  by (auto simp: ditto_delete_def split: option.splits prod.splits)

text \<open>
  C1 (fan-out). For every store whose active slots all hold a callback: a \<open>put\<close> or a
  \<open>delete\<close> of key \<open>K\<close> that returns 0 has made, before returning, exactly the calls
  \<open>active_calls db K\<close>: one call per active slot, with that slot's callback and context
  and the key \<open>K\<close>, in slot order (the active slots are listed once each, in increasing
  order). A \<open>put\<close> or \<open>delete\<close> that returns another status, for whatever arguments,
  has made no call.
\<close>
theorem C1_fan_out:
  assumes "callbacks_set db"
  shows "snd (snd (snd (ditto_put h (Some db) (Some K) d n)))
           = (if fst (ditto_put h (Some db) (Some K) d n) = 0 then active_calls db K else [])
       \<and> snd (snd (ditto_delete (Some db) (Some K)))
           = (if fst (ditto_delete (Some db) (Some K)) = 0 then active_calls db K else [])
       \<and> (fst (ditto_put hf dbo ko df nf) \<noteq> 0 \<longrightarrow> snd (snd (snd (ditto_put hf dbo ko df nf))) = [])
       \<and> (fst (ditto_delete dbo ko) \<noteq> 0 \<longrightarrow> snd (snd (ditto_delete dbo ko)) = [])
       \<and> distinct (active_slots db) \<and> sorted (active_slots db)
       \<and> set (active_slots db) = {i. i < MAX_SUBSCRIPTIONS \<and> active (subscriptions db i) \<noteq> 0}"
proof -
  have "snd (snd (snd (ditto_put h (Some db) (Some K) d n)))
          = (if fst (ditto_put h (Some db) (Some K) d n) = 0 then active_calls db K else [])"
    by (simp add: ditto_put_def notify_active_calls [OF assms] split: option.splits prod.splits)
  moreover have "snd (snd (ditto_delete (Some db) (Some K)))
          = (if fst (ditto_delete (Some db) (Some K)) = 0 then active_calls db K else [])"
    by (simp add: ditto_delete_def notify_active_calls [OF assms] split: option.splits prod.splits)
  moreover have "fst (ditto_put hf dbo ko df nf) \<noteq> 0 \<longrightarrow> snd (snd (snd (ditto_put hf dbo ko df nf))) = []"
    by (simp add: ditto_put_def split: option.splits prod.splits)
  moreover have "fst (ditto_delete dbo ko) \<noteq> 0 \<longrightarrow> snd (snd (ditto_delete dbo ko)) = []"
    by (simp add: ditto_delete_def split: option.splits prod.splits)
  ultimately show ?thesis
    using active_slots_props [of db] by simp
qed

lemma two_subs_run:
  "ditto_subscribe
     (fst (snd (ditto_subscribe (Some fresh_db) (Addr 11) (Addr 21) (Some 0))))
     (Addr 12) NULL (Some 0) = (0, Some two_subs, Some 2)"
  by (simp add: ditto_subscribe_def MAX_SUBSCRIPTIONS_def fresh_db_def two_subs_def upt_conv_Cons)

lemma callbacks_set_two_subs: "callbacks_set two_subs"
  by (simp add: callbacks_set_def two_subs_def fresh_db_def)

lemma active_slots_two_subs: "active_slots two_subs = [0, 1]"
  by (simp add: active_slots_def two_subs_def fresh_db_def MAX_SUBSCRIPTIONS_def upt_conv_Cons
    filter_empty_conv)

theorem C1_witness:
  "snd (snd (snd (ditto_put [] (Some two_subs) (Some ''x'') (Some [5, 6]) 2)))
     = [(Addr 11, Addr 21, ''x''), (Addr 12, NULL, ''x'')]
   \<and> snd (snd (ditto_delete (Some two_subs_x) (Some ''x'')))
     = [(Addr 11, Addr 21, ''x''), (Addr 12, NULL, ''x'')]
   \<and> snd (snd (snd (ditto_put [False] (Some two_subs) (Some ''x'') (Some [5, 6]) 2))) = []
   \<and> snd (snd (ditto_delete (Some two_subs) (Some ''x''))) = []"
proof -
  have cs: "callbacks_set two_subs_x"
    using callbacks_set_two_subs by (simp add: callbacks_set_def two_subs_x_def)
  have calls: "active_calls two_subs ''x'' = [(Addr 11, Addr 21, ''x''), (Addr 12, NULL, ''x'')]"
    by (simp add: active_calls_def active_slots_two_subs) (simp add: two_subs_def)
  have calls_x: "active_calls two_subs_x ''x'' = active_calls two_subs ''x''"
    by (simp add: active_calls_def active_slots_def two_subs_x_def)
  have p: "fst (ditto_put [] (Some two_subs) (Some ''x'') (Some [5, 6]) 2) = 0"
    by (simp add: ditto_put_def hash_table_put_def two_subs_def fresh_db_def)
  have d: "fst (ditto_delete (Some two_subs_x) (Some ''x'')) = 0"
    by (simp add: ditto_delete_def hash_table_delete_def strcmp_eq_def two_subs_x_def)
  have pf: "fst (ditto_put [False] (Some two_subs) (Some ''x'') (Some [5, 6]) 2) \<noteq> 0"
    by (simp add: ditto_put_def hash_table_put_def two_subs_def fresh_db_def)
  have dl: "fst (ditto_delete (Some two_subs) (Some ''x'')) \<noteq> 0"
    by (simp add: ditto_delete_def hash_table_delete_def two_subs_def fresh_db_def)
  note a = C1_fan_out [OF callbacks_set_two_subs, where h = "[]" and K = "''x''"
      and d = "Some [5, 6]" and n = 2 and hf = "[False]" and dbo = "Some two_subs"
      and ko = "Some ''x''" and df = "Some [5, 6]" and nf = 2]
  note b = C1_fan_out [OF cs, where K = "''x''"]
  have 1: "snd (snd (snd (ditto_put [] (Some two_subs) (Some ''x'') (Some [5, 6]) 2)))
     = [(Addr 11, Addr 21, ''x''), (Addr 12, NULL, ''x'')]"
    using a p calls by simp
  have 2: "snd (snd (ditto_delete (Some two_subs_x) (Some ''x'')))
     = [(Addr 11, Addr 21, ''x''), (Addr 12, NULL, ''x'')]"
    using b d calls calls_x by simp
  have 3: "snd (snd (snd (ditto_put [False] (Some two_subs) (Some ''x'') (Some [5, 6]) 2))) = []"
    using a pf by blast
  have 4: "snd (snd (ditto_delete (Some two_subs) (Some ''x''))) = []"
    using a dl by blast
  show ?thesis using 1 2 3 4 by blast
qed

section \<open>The table invariant\<close>

lemma hash_loop_c_str: "hash_loop a (c_str s) = hash_loop a s"
  by (induction s arbitrary: a) (simp_all add: c_str_def)

lemma hash_string_c_str: "hash_string (c_str s) = hash_string s"
  by (simp add: hash_string_def hash_loop_c_str)

lemma strcmp_eq_hash: "strcmp_eq a b \<Longrightarrow> hash_string a = hash_string b"
  by (metis hash_string_c_str strcmp_eq_def)

lemma hash_string_less: "hash_string s < HASH_SIZE"
proof -
  have "hash_loop 5381 s mod 256 < 256"
    by (rule word_mod_less_divisor) simp
  then have "unat (hash_loop 5381 s mod 256) < unat (256 :: uint32)"
    by (simp only: word_less_nat_alt)
  then show ?thesis
    by (simp add: hash_string_def HASH_SIZE_def)
qed

lemma has_entry_live:
  assumes "table_ok (table db)"
  shows "has_entry (table db) k \<longleftrightarrow> live_entry db k \<noteq> None"
proof
  assume "has_entry (table db) k"
  then obtain i e where i: "i < HASH_SIZE" and e: "e \<in> set (buckets (table db) i)"
    and eq: "strcmp_eq (key e) k"
    by (auto simp: has_entry_def)
  from assms i e have "hash_string (key e) = i"
    by (auto simp: table_ok_def)
  with eq have "i = hash_string k"
    using strcmp_eq_hash by blast
  with e eq show "live_entry db k \<noteq> None"
    by (auto simp: live_entry_def find_None_iff)
next
  assume "live_entry db k \<noteq> None"
  then show "has_entry (table db) k"
    using hash_string_less [of k]
    by (auto simp: live_entry_def find_None_iff has_entry_def)
qed

lemma delete_chain_None:
  "delete_chain es k = None \<longleftrightarrow> find (\<lambda>e. strcmp_eq (key e) k) es = None"
  by (induction es) (auto split: option.splits)

lemma delete_chain_set:
  "delete_chain es k = Some es' \<Longrightarrow> set es' \<subseteq> set es"
  by (induction es arbitrary: es') (auto split: option.splits if_splits)

lemma delete_chain_distinct:
  "delete_chain es k = Some es' \<Longrightarrow> distinct (map (\<lambda>e. c_str (key e)) es) \<Longrightarrow>
     distinct (map (\<lambda>e. c_str (key e)) es') \<and> find (\<lambda>e. strcmp_eq (key e) k) es' = None"
proof (induction es arbitrary: es')
  case Nil
  then show ?case by simp
next
  case (Cons a es)
  show ?case
  proof (cases "strcmp_eq (key a) k")
    case True
    with Cons.prems have es': "es' = es" and d: "distinct (map (\<lambda>e. c_str (key e)) es)"
      and "\<forall>e \<in> set es. c_str (key e) \<noteq> c_str (key a)"
      by (auto simp: image_iff)
    with True have "\<forall>e \<in> set es. \<not> strcmp_eq (key e) k"
      by (simp add: strcmp_eq_def)
    then have "find (\<lambda>e. strcmp_eq (key e) k) es = None"
      by (simp add: find_None_iff)
    with es' d show ?thesis by simp
  next
    case False
    with Cons.prems obtain r where r: "delete_chain es k = Some r" and es': "es' = a # r"
      by (auto split: option.splits)
    from Cons.IH [OF r] Cons.prems(2) delete_chain_set [OF r] False es' show ?thesis
      by auto
  qed
qed

lemma put_existing_keys:
  "put_existing h es k d n = Some (rc, es', h') \<Longrightarrow> map key es' = map key es"
  by (induction es arbitrary: es') (auto split: option.splits if_splits prod.splits bool.splits)

lemma table_ok_fresh: "table_ok (table fresh_db)"
  by (simp add: table_ok_def fresh_db_def)

lemma map_key_cong:
  fixes es es' :: "kv_entry list"
  assumes "map key es' = map key es"
  shows "map (\<lambda>e. c_str (key e)) es' = map (\<lambda>e. c_str (key e)) es \<and> key ` set es' = key ` set es"
proof -
  have "map c_str (map key es') = map c_str (map key es)" "set (map key es') = set (map key es)"
    using assms by simp_all
  then show ?thesis by (simp add: comp_def)
qed

lemma table_ok_put:
  assumes "table_ok t" and "hash_table_put h t k d n = (rc, t', h')"
  shows "table_ok t'"
proof (cases "put_existing h (buckets t (hash_string k)) k d n")
  case None
  then have nf: "find (\<lambda>e. strcmp_eq (key e) k) (buckets t (hash_string k)) = None"
    by (simp add: put_existing_None)
  then have "c_str k \<notin> (\<lambda>e. c_str (key e)) ` set (buckets t (hash_string k))"
    by (auto simp: find_None_iff strcmp_eq_def)
  with assms None show ?thesis
    using hash_string_less [of k]
    by (auto simp: hash_table_put_def Let_def table_ok_def c_str_idem hash_string_c_str
        split: prod.splits bool.splits if_splits)
next
  case (Some r)
  then obtain es' where r: "put_existing h (buckets t (hash_string k)) k d n = Some (rc, es', h')"
    and t': "t' = t\<lparr>buckets := (buckets t)(hash_string k := es')\<rparr>"
    using assms(2) by (cases r) (auto simp: hash_table_put_def Let_def)
  from put_existing_keys [OF r] have keys: "map key es' = map key (buckets t (hash_string k))" .
  have "\<forall>e' \<in> set es'. \<exists>e \<in> set (buckets t (hash_string k)). key e' = key e"
    using map_key_cong [OF keys] by (metis (no_types, lifting) imageE imageI)
  with assms(1) t' map_key_cong [OF keys] show ?thesis
    by (auto simp: table_ok_def)
qed

lemma table_ok_delete:
  assumes "table_ok t" and "hash_table_delete t k = (rc, t')"
  shows "table_ok t'"
proof (cases "delete_chain (buckets t (hash_string k)) k")
  case None
  with assms show ?thesis by (simp add: hash_table_delete_def Let_def)
next
  case (Some es')
  with assms(2) have t': "t' = t\<lparr>buckets := (buckets t)(hash_string k := es')\<rparr>"
    by (simp add: hash_table_delete_def Let_def)
  from assms(1) have "distinct (map (\<lambda>e. c_str (key e)) (buckets t (hash_string k)))"
    using hash_string_less [of k] by (simp add: table_ok_def)
  from delete_chain_distinct [OF Some this] delete_chain_set [OF Some] assms(1) t'
  show ?thesis
    by (auto simp: table_ok_def)
qed

lemma ditto_delete_gone:
  assumes "table_ok (table db)" and "ditto_delete (Some db) (Some k) = (0, dbo', evs)"
  shows "\<exists>db'. dbo' = Some db' \<and> live_entry db' k = None \<and> table_ok (table db')"
proof -
  from assms(2) obtain es' where d: "delete_chain (buckets (table db) (hash_string k)) k = Some es'"
    and dbo': "dbo' = Some (db\<lparr>table := (table db)\<lparr>buckets := (buckets (table db))(hash_string k := es')\<rparr>\<rparr>)"
    by (auto simp: ditto_delete_def hash_table_delete_def Let_def split: option.splits)
  from assms(1) have "distinct (map (\<lambda>e. c_str (key e)) (buckets (table db) (hash_string k)))"
    using hash_string_less [of k] by (simp add: table_ok_def)
  from delete_chain_distinct [OF d this] have "find (\<lambda>e. strcmp_eq (key e) k) es' = None"
    by simp
  moreover have "table_ok (table db\<lparr>buckets := (buckets (table db))(hash_string k := es')\<rparr>)"
    using table_ok_delete [OF assms(1), of k] d by (simp add: hash_table_delete_def Let_def)
  ultimately show ?thesis
    using dbo' by (simp add: live_entry_def)
qed

lemma ditto_put_table_ok:
  assumes "table_ok (table db)" and "ditto_put h (Some db) (Some k) (Some v) n = (rc, dbo', h', evs)"
  shows "\<exists>db'. dbo' = Some db' \<and> table_ok (table db')"
  using assms table_ok_put [OF assms(1), of h k v n]
  by (auto simp: ditto_put_def split: prod.splits)

lemma ditto_delete_live:
  "fst (ditto_delete (Some db) (Some k)) = (if live_entry db k = None then 2 else 0)"
  using delete_chain_None [of "buckets (table db) (hash_string k)" k]
  by (auto simp: ditto_delete_def hash_table_delete_def Let_def live_entry_def split: option.splits)

subsection \<open>Histories of puts and deletes\<close>

lemma strcmp_eq_trans: "strcmp_eq a b \<Longrightarrow> strcmp_eq b c \<Longrightarrow> strcmp_eq a c"
  by (simp add: strcmp_eq_def)

lemma strcmp_eq_other: "strcmp_eq a k \<Longrightarrow> \<not> strcmp_eq k K \<Longrightarrow> \<not> strcmp_eq a K"
  by (simp add: strcmp_eq_def)

lemma live_entry_cong: "strcmp_eq k K \<Longrightarrow> live_entry db k = live_entry db K"
  by (simp add: live_entry_def strcmp_eq_hash) (simp add: strcmp_eq_def)

lemma put_existing_other:
  "put_existing h es k d n = Some (rc, es', h') \<Longrightarrow> \<not> strcmp_eq k K \<Longrightarrow>
     find (\<lambda>e. strcmp_eq (key e) K) es' = find (\<lambda>e. strcmp_eq (key e) K) es"
proof (induction es arbitrary: es')
  case Nil
  then show ?case by simp
next
  case (Cons a es)
  show ?case
  proof (cases "strcmp_eq (key a) k")
    case True
    with Cons.prems(2) have "\<not> strcmp_eq (key a) K"
      using strcmp_eq_other by blast
    with True Cons.prems(1) show ?thesis
      by (auto split: prod.splits bool.splits)
  next
    case False
    with Cons.prems(1) obtain r where r: "put_existing h es k d n = Some (rc, r, h')"
      and es': "es' = a # r"
      by (auto split: option.splits)
    from Cons.IH [OF r Cons.prems(2)] es' show ?thesis
      by simp
  qed
qed

lemma hash_table_put_other:
  assumes "hash_table_put h t k d n = (rc, t', h')" and "\<not> strcmp_eq k K"
  shows "find (\<lambda>e. strcmp_eq (key e) K) (buckets t' (hash_string K))
       = find (\<lambda>e. strcmp_eq (key e) K) (buckets t (hash_string K))"
proof (cases "put_existing h (buckets t (hash_string k)) k d n")
  case None
  have "\<not> strcmp_eq (c_str k) K"
    using assms(2) by (simp add: strcmp_eq_def c_str_idem)
  with assms(1) None show ?thesis
    by (auto simp: hash_table_put_def Let_def split: prod.splits bool.splits if_splits)
next
  case (Some r)
  then obtain es' where r: "put_existing h (buckets t (hash_string k)) k d n = Some (rc, es', h')"
    and t': "t' = t\<lparr>buckets := (buckets t)(hash_string k := es')\<rparr>"
    using assms(1) by (cases r) (auto simp: hash_table_put_def Let_def)
  from put_existing_other [OF r assms(2)] t' show ?thesis
    by simp
qed

lemma delete_chain_other:
  "delete_chain es k = Some es' \<Longrightarrow> \<not> strcmp_eq k K \<Longrightarrow>
     find (\<lambda>e. strcmp_eq (key e) K) es' = find (\<lambda>e. strcmp_eq (key e) K) es"
proof (induction es arbitrary: es')
  case Nil
  then show ?case by simp
next
  case (Cons a es)
  show ?case
  proof (cases "strcmp_eq (key a) k")
    case True
    with Cons.prems(2) have "\<not> strcmp_eq (key a) K"
      using strcmp_eq_other by blast
    with True Cons.prems(1) show ?thesis
      by simp
  next
    case False
    with Cons.prems(1) obtain r where r: "delete_chain es k = Some r" and es': "es' = a # r"
      by (auto split: option.splits)
    from Cons.IH [OF r Cons.prems(2)] es' show ?thesis
      by simp
  qed
qed

lemma ditto_put_other:
  assumes "ditto_put h (Some db) (Some k) (Some d) n = (rc, Some db', h', evs)"
    and "\<not> strcmp_eq k K"
  shows "live_entry db' K = live_entry db K"
  using assms hash_table_put_other [of h "table db" k d n _ _ _ K]
  by (auto simp: ditto_put_def live_entry_def split: prod.splits)

lemma ditto_delete_other:
  assumes "ditto_delete (Some db) (Some k) = (rc, Some db', evs)" and "\<not> strcmp_eq k K"
  shows "live_entry db' K = live_entry db K"
proof (cases "delete_chain (buckets (table db) (hash_string k)) k")
  case None
  with assms(1) show ?thesis
    by (auto simp: ditto_delete_def hash_table_delete_def Let_def)
next
  case (Some es')
  with assms(1) have "db' = db\<lparr>table := (table db)\<lparr>buckets :=
      (buckets (table db))(hash_string k := es')\<rparr>\<rparr>"
    by (auto simp: ditto_delete_def hash_table_delete_def Let_def)
  with delete_chain_other [OF Some assms(2)] show ?thesis
    by (simp add: live_entry_def)
qed

lemma apply_op_step:
  assumes ok: "table_ok (table db)"
  shows "\<exists>db'. snd (apply_op (Some db) x) = Some db' \<and> table_ok (table db') \<and>
           (live_entry db' K \<noteq> None \<longleftrightarrow>
              (if fst (apply_op (Some db) x) = 0 \<and> strcmp_eq (op_key x) K
               then (case x of Put h k d n \<Rightarrow> True | Delete k \<Rightarrow> False)
               else live_entry db K \<noteq> None))"
proof (cases x)
  case (Put h k d n)
  obtain rc dbo' h' evs where r: "ditto_put h (Some db) (Some k) (Some d) n = (rc, dbo', h', evs)"
    by (metis prod.collapse)
  from ditto_put_table_ok [OF ok r] obtain db' where db': "dbo' = Some db'"
    and ok': "table_ok (table db')"
    by blast
  have "live_entry db' K \<noteq> None \<longleftrightarrow>
      (if rc = 0 \<and> strcmp_eq k K then True else live_entry db K \<noteq> None)"
  proof (cases "strcmp_eq k K")
    case False
    with ditto_put_other [OF r [unfolded db'] False] show ?thesis by simp
  next
    case True
    show ?thesis
    proof (cases "rc = 0")
      case rc: True
      from ditto_put_ok [OF r [unfolded rc]] db' have "live_entry db' k \<noteq> None"
        by auto
      with True rc show ?thesis
        by (simp add: live_entry_cong [OF True])
    next
      case False
      with r db' have "db' = db"
        by (auto simp: ditto_put_def split: prod.splits dest: hash_table_put_fail)
      with False show ?thesis by simp
    qed
  qed
  with Put r db' ok' show ?thesis
    by simp
next
  case (Delete k)
  obtain rc dbo' evs where r: "ditto_delete (Some db) (Some k) = (rc, dbo', evs)"
    by (metis prod.collapse)
  then obtain db' where db': "dbo' = Some db'"
    by (auto simp: ditto_delete_def split: prod.splits)
  have ok': "table_ok (table db')"
    using table_ok_delete [OF ok, of k] r db'
    by (auto simp: ditto_delete_def split: prod.splits)
  have "live_entry db' K \<noteq> None \<longleftrightarrow>
      (if rc = 0 \<and> strcmp_eq k K then False else live_entry db K \<noteq> None)"
  proof (cases "strcmp_eq k K")
    case False
    with ditto_delete_other [OF r [unfolded db'] False] show ?thesis by simp
  next
    case True
    show ?thesis
    proof (cases "rc = 0")
      case rc: True
      from ditto_delete_gone [OF ok r [unfolded rc]] db' have "live_entry db' k = None"
        by auto
      with True rc show ?thesis
        by (simp add: live_entry_cong [OF True])
    next
      case False
      with r db' have "db' = db"
        by (auto simp: ditto_delete_def hash_table_delete_def Let_def split: option.splits)
      with False show ?thesis by simp
    qed
  qed
  with Delete r db' ok' show ?thesis
    by simp
qed

lemma run_stored:
  assumes "table_ok (table db)"
  shows "\<exists>db'. run (Some db) ops = Some db' \<and> table_ok (table db') \<and>
           (live_entry db' K \<noteq> None \<longleftrightarrow> stored (live_entry db K \<noteq> None) (Some db) ops K)"
  using assms
proof (induction ops arbitrary: db)
  case Nil
  then show ?case by simp
next
  case (Cons x ops)
  from apply_op_step [OF Cons.prems, of x K] obtain db1 where
    s: "snd (apply_op (Some db) x) = Some db1" and ok1: "table_ok (table db1)"
    and live: "live_entry db1 K \<noteq> None \<longleftrightarrow>
              (if fst (apply_op (Some db) x) = 0 \<and> strcmp_eq (op_key x) K
               then (case x of Put h k d n \<Rightarrow> True | Delete k \<Rightarrow> False)
               else live_entry db K \<noteq> None)"
    by blast
  from Cons.IH [OF ok1] show ?case
    by (simp only: run.simps stored.simps s live)
qed

lemma has_entry_fresh: "\<not> has_entry (table fresh_db) K"
  by (simp add: has_entry_def fresh_db_def)

text \<open>
  C8, as stated (a key whose stored value has zero length gives Ok with length 0 for any
  capacity), does not hold when the output buffer is NULL: that is the size query, and it
  returns status 1 (BufferTooSmall) with the length 0, whatever the capacity.
\<close>
theorem C8_null_buffer_counterexample:
  "ditto_get (fst (snd (ditto_put [] (Some fresh_db) (Some ''z'') (Some []) 0)))
     (Some ''z'') None (Some 5) = (1, None, Some 0)
   \<and> fst (ditto_get (fst (snd (ditto_put [] (Some fresh_db) (Some ''z'') (Some []) 0)))
     (Some ''z'') None (Some 5)) \<noteq> 0"
  by (simp add: put_eval ditto_get_def hash_table_get_def)

text \<open>
  C8, amended. For every store whose table satisfies its invariant, \<open>get(K)\<close> returns
  status 2 (NotFound) exactly when no bucket holds an entry for \<open>K\<close>. After any history
  of puts and deletes, of \<open>K\<close> and of other keys, on such a store or on a fresh one, it
  returns 2 exactly when \<open>K\<close> is not stored by that history: never put with success, or
  deleted with success since its last successful put. So it does on a fresh store, after
  a successful \<open>delete(K)\<close>, and after a successful \<open>put(K, V)\<close> followed by
  \<open>delete(K)\<close>, which then succeeds. An entry of length 0 is present: \<open>get\<close> with a
  buffer and any capacity returns 0 (Ok) and the length 0 and leaves the buffer as it
  was; \<open>get\<close> with a NULL buffer and any capacity returns 1 (BufferTooSmall) and the
  length 0; neither returns NotFound.
\<close>
theorem C8_not_found_iff_no_entry:
  assumes "table_ok (table db)"
  shows "(fst (ditto_get (Some db) (Some K) out_buf (Some cap)) = 2 \<longleftrightarrow> \<not> has_entry (table db) K)
       \<and> (fst (ditto_get (run (Some db) ops) (Some K) out_buf (Some cap)) = 2
            \<longleftrightarrow> \<not> stored (has_entry (table db) K) (Some db) ops K)
       \<and> (fst (ditto_get (run (Some fresh_db) ops) (Some K) out_buf (Some cap)) = 2
            \<longleftrightarrow> \<not> stored False (Some fresh_db) ops K)
       \<and> fst (ditto_get (Some fresh_db) (Some K) out_buf (Some cap)) = 2
       \<and> (fst (ditto_delete (Some db) (Some K)) = 0 \<longrightarrow>
            fst (ditto_get (fst (snd (ditto_delete (Some db) (Some K)))) (Some K) out_buf (Some cap)) = 2)
       \<and> (fst (ditto_put h (Some db) (Some K) (Some V) n) = 0 \<longrightarrow>
            fst (ditto_delete (fst (snd (ditto_put h (Some db) (Some K) (Some V) n))) (Some K)) = 0
            \<and> fst (ditto_get
                 (fst (snd (ditto_delete
                    (fst (snd (ditto_put h (Some db) (Some K) (Some V) n))) (Some K))))
                 (Some K) out_buf (Some cap)) = 2)
       \<and> (live_entry db K = Some e \<and> len e = 0 \<longrightarrow>
            ditto_get (Some db) (Some K) (Some buf) (Some cap) = (0, Some buf, Some 0)
            \<and> ditto_get (Some db) (Some K) None (Some cap) = (1, None, Some 0))"
proof -
  have get2: "fst (ditto_get (Some d) (Some K) out_buf (Some cap)) = 2 \<longleftrightarrow> live_entry d K = None"
    for d
    by (simp add: ditto_get_live split: option.splits)
  have hist: "fst (ditto_get (run (Some d) ops) (Some K) out_buf (Some cap)) = 2
            \<longleftrightarrow> \<not> stored (has_entry (table d) K) (Some d) ops K"
    if ok: "table_ok (table d)" for d
  proof -
    from run_stored [OF ok, of ops K] obtain d' where r: "run (Some d) ops = Some d'"
      and live: "live_entry d' K \<noteq> None \<longleftrightarrow> stored (live_entry d K \<noteq> None) (Some d) ops K"
      by blast
    from live show ?thesis
      by (simp only: r get2 has_entry_live [OF ok]) blast
  qed
  have del: "fst (ditto_get (fst (snd (ditto_delete (Some d) (Some K)))) (Some K) out_buf (Some cap)) = 2"
    if ok: "table_ok (table d)" and rc: "fst (ditto_delete (Some d) (Some K)) = 0" for d
  proof -
    obtain dbo' evs where r: "ditto_delete (Some d) (Some K) = (0, dbo', evs)"
      using rc by (metis prod.collapse)
    from ditto_delete_gone [OF ok r] r show ?thesis
      by (auto simp: get2)
  qed
  have 1: "fst (ditto_get (Some db) (Some K) out_buf (Some cap)) = 2 \<longleftrightarrow> \<not> has_entry (table db) K"
    by (simp add: get2 has_entry_live [OF assms])
  have 2: "fst (ditto_get (run (Some db) ops) (Some K) out_buf (Some cap)) = 2
            \<longleftrightarrow> \<not> stored (has_entry (table db) K) (Some db) ops K"
    by (rule hist [OF assms])
  have 3: "fst (ditto_get (run (Some fresh_db) ops) (Some K) out_buf (Some cap)) = 2
            \<longleftrightarrow> \<not> stored False (Some fresh_db) ops K"
    using hist [OF table_ok_fresh] by (simp only: has_entry_fresh)
  have 4: "fst (ditto_get (Some fresh_db) (Some K) out_buf (Some cap)) = 2"
    by (simp add: get2 live_entry_def fresh_db_def)
  have 5: "fst (ditto_delete (Some db) (Some K)) = 0 \<longrightarrow>
            fst (ditto_get (fst (snd (ditto_delete (Some db) (Some K)))) (Some K) out_buf (Some cap)) = 2"
    using del [OF assms] by simp
  have 6: "fst (ditto_put h (Some db) (Some K) (Some V) n) = 0 \<longrightarrow>
            fst (ditto_delete (fst (snd (ditto_put h (Some db) (Some K) (Some V) n))) (Some K)) = 0
            \<and> fst (ditto_get
                 (fst (snd (ditto_delete
                    (fst (snd (ditto_put h (Some db) (Some K) (Some V) n))) (Some K))))
                 (Some K) out_buf (Some cap)) = 2"
  proof
    assume rc: "fst (ditto_put h (Some db) (Some K) (Some V) n) = 0"
    then obtain dbo' h' evs where r: "ditto_put h (Some db) (Some K) (Some V) n = (0, dbo', h', evs)"
      by (metis prod.collapse)
    from ditto_put_ok [OF r] ditto_put_table_ok [OF assms r]
    obtain db' where db': "dbo' = Some db'" and live: "live_entry db' K \<noteq> None"
      and ok: "table_ok (table db')"
      by auto
    from live have "fst (ditto_delete (Some db') (Some K)) = 0"
      by (simp add: ditto_delete_live)
    with del [OF ok] r db'
    show "fst (ditto_delete (fst (snd (ditto_put h (Some db) (Some K) (Some V) n))) (Some K)) = 0
            \<and> fst (ditto_get
                 (fst (snd (ditto_delete
                    (fst (snd (ditto_put h (Some db) (Some K) (Some V) n))) (Some K))))
                 (Some K) out_buf (Some cap)) = 2"
      by simp
  qed
  have 7: "live_entry db K = Some e \<and> len e = 0 \<longrightarrow>
            ditto_get (Some db) (Some K) (Some buf) (Some cap) = (0, Some buf, Some 0)
            \<and> ditto_get (Some db) (Some K) None (Some cap) = (1, None, Some 0)"
    by (simp add: ditto_get_live memcpy_def)
  from 1 2 3 4 5 6 7 show ?thesis by blast
qed

text \<open>The unfolding that evaluates a history on a concrete store.\<close>
lemmas run_eval = put_eval ditto_delete_def hash_table_delete_def

theorem C8_witness:
  "fst (ditto_get
          (run (Some fresh_db) [Put [] ''a'' [1, 2, 3] 3, Put [] ''b'' [4, 5] 2, Delete ''a''])
          (Some ''a'') (Some [7]) (Some 1)) = 2
   \<and> fst (ditto_get
          (run (Some fresh_db) [Put [] ''a'' [1, 2, 3] 3, Put [] ''b'' [4, 5] 2, Delete ''a''])
          (Some ''b'') (Some [7]) (Some 1)) \<noteq> 2
   \<and> fst (ditto_get (Some fresh_db) (Some ''a'') (Some [7]) (Some 1)) = 2
   \<and> ditto_get (fst (snd (ditto_put [] (Some fresh_db) (Some ''z'') (Some []) 0)))
        (Some ''z'') (Some [7]) (Some 0) = (0, Some [7], Some 0)
   \<and> ditto_get (fst (snd (ditto_put [] (Some fresh_db) (Some ''z'') (Some []) 0)))
        (Some ''z'') None (Some 0) = (1, None, Some 0)"
proof -
  let ?ops = "[Put [] ''a'' [1, 2, 3] 3, Put [] ''b'' [4, 5] 2, Delete ''a'']"
  let ?dbz = "fresh_db\<lparr>table :=
    \<lparr>buckets = (\<lambda>i. [])(hash_string ''z'' := [\<lparr>key = ''z'', data = [], len = 0\<rparr>])\<rparr>\<rparr>"
  have z: "fst (snd (ditto_put [] (Some fresh_db) (Some ''z'') (Some []) 0)) = Some ?dbz"
    by (simp add: ditto_put_def hash_table_put_def fresh_db_def memcpy_def c_str_def)
  have live: "live_entry ?dbz ''z'' = Some \<lparr>key = ''z'', data = [], len = 0\<rparr>"
    by (simp add: live_entry_def strcmp_eq_def)
  have okz: "table_ok (table ?dbz)"
    using table_ok_put [OF table_ok_fresh, of "[]" "''z''" "[]" 0]
    by (simp add: hash_table_put_def fresh_db_def memcpy_def c_str_def)
  have sa: "\<not> stored False (Some fresh_db) ?ops ''a''"
    by (simp add: run_eval)
  have sb: "stored False (Some fresh_db) ?ops ''b''"
    by (simp add: run_eval)
  note a = C8_not_found_iff_no_entry [OF table_ok_fresh, where K = "''a''" and out_buf = "Some [7]"
      and cap = 1 and ops = ?ops]
  note b = C8_not_found_iff_no_entry [OF table_ok_fresh, where K = "''b''" and out_buf = "Some [7]"
      and cap = 1 and ops = ?ops]
  note c = C8_not_found_iff_no_entry [OF okz, where K = "''z''" and cap = 0 and buf = "[7]"
      and e = "\<lparr>key = ''z'', data = [], len = 0\<rparr>"]
  have 1: "fst (ditto_get (run (Some fresh_db) ?ops) (Some ''a'') (Some [7]) (Some 1)) = 2"
    using a sa by blast
  have 2: "fst (ditto_get (run (Some fresh_db) ?ops) (Some ''b'') (Some [7]) (Some 1)) \<noteq> 2"
    using b sb by blast
  have 3: "fst (ditto_get (Some fresh_db) (Some ''a'') (Some [7]) (Some 1)) = 2"
    using a by blast
  have 4: "ditto_get (Some ?dbz) (Some ''z'') (Some [7]) (Some 0) = (0, Some [7], Some 0)"
    and 5: "ditto_get (Some ?dbz) (Some ''z'') None (Some 0) = (1, None, Some 0)"
    using c live by simp_all
  show ?thesis
    unfolding z by (intro conjI 1 2 3 4 5)
qed

section \<open>Capacity of the subscription table\<close>


















section \<open>Unsubscribing\<close>

lemma concat_map_skip:
  "(\<And>x. x \<in> set xs \<Longrightarrow> f x = (if P x then g x else [])) \<Longrightarrow>
     concat (map f xs) = concat (map g (filter P xs))"
  by (induction xs) simp_all

lemma notify_after_unsubscribe:
  "notify_subscribers
     (db\<lparr>subscriptions := (subscriptions db)
        (i := (subscriptions db i)\<lparr>active := 0, callback := NULL, user_data := NULL\<rparr>)\<rparr>) k
   = calls_except db i k"
  unfolding notify_subscribers_def calls_except_def
  by (rule concat_map_skip [where P = "\<lambda>j. j \<noteq> i"]) (simp add: notify_slot_def)

lemma slot_gone:
  assumes "\<forall>j \<in> set [0..<MAX_SUBSCRIPTIONS].
           active (subscriptions db j) \<noteq> 0 \<and> id' (subscriptions db j) = S \<longrightarrow> j = i"
  shows "slot_of
     (db\<lparr>subscriptions := (subscriptions db)
        (i := (subscriptions db i)\<lparr>active := 0, callback := NULL, user_data := NULL\<rparr>)\<rparr>) S = None"
proof -
  let ?subs = "(subscriptions db)
        (i := (subscriptions db i)\<lparr>active := 0, callback := NULL, user_data := NULL\<rparr>)"
  have sel: "subscriptions (db\<lparr>subscriptions := ?subs\<rparr>) = ?subs"
    by simp
  have h: "\<not> (active (?subs j) \<noteq> 0 \<and> id' (?subs j) = S)"
    if j: "j \<in> set [0..<MAX_SUBSCRIPTIONS]" for j
  proof (cases "j = i")
    case True
    then show ?thesis by simp
  next
    case False
    from assms j
    have "active (subscriptions db j) \<noteq> 0 \<and> id' (subscriptions db j) = S \<longrightarrow> j = i"
      by (rule bspec)
    with False have "\<not> (active (subscriptions db j) \<noteq> 0 \<and> id' (subscriptions db j) = S)"
      by blast
    with False show ?thesis
      by simp
  qed
  have none: "\<not> (\<exists>x. x \<in> set [0..<MAX_SUBSCRIPTIONS] \<and> active (?subs x) \<noteq> 0 \<and> id' (?subs x) = S)"
    using h by blast
  show ?thesis
    unfolding slot_of_def find_None_iff sel by (rule none)
qed

lemma ditto_unsubscribe_slot:
  assumes "slot_of db S = Some i"
  shows "ditto_unsubscribe (Some db) S =
           (0, Some (db\<lparr>subscriptions := (subscriptions db)
                          (i := (subscriptions db i)
                                  \<lparr>active := 0, callback := NULL, user_data := NULL\<rparr>)\<rparr>))"
  using assms by (simp add: ditto_unsubscribe_def slot_of_def)

lemma ditto_unsubscribe_no_slot:
  assumes "slot_of db S = None"
  shows "ditto_unsubscribe (Some db) S = (-1, Some db)"
  using assms by (simp add: ditto_unsubscribe_def slot_of_def)

text \<open>
  Let \<open>S\<close> be the id of exactly one active subscription, held in slot \<open>i\<close> (every store
  that satisfies \<open>ids_ok\<close> is such, for each of its active ids). Then \<open>unsubscribe(S)\<close> returns 0; every later \<open>put\<close> or \<open>delete\<close> that succeeds
  makes the calls of the other slots only (none from slot \<open>i\<close>), and one that fails makes
  none; and a second \<open>unsubscribe(S)\<close> returns -1, the status of the path "subscription
  not found", leaving the store as it is.
\<close>
lemma unsubscribe_silences:
  assumes "slot_of db S = Some i"
    and "\<forall>j \<in> set [0..<MAX_SUBSCRIPTIONS].
           active (subscriptions db j) \<noteq> 0 \<and> id' (subscriptions db j) = S \<longrightarrow> j = i"
  shows "fst (ditto_unsubscribe (Some db) S) = 0
       \<and> snd (snd (snd (ditto_put h (snd (ditto_unsubscribe (Some db) S)) (Some k) d n)))
           = (if fst (ditto_put h (snd (ditto_unsubscribe (Some db) S)) (Some k) d n) = 0
              then calls_except db i k else [])
       \<and> snd (snd (ditto_delete (snd (ditto_unsubscribe (Some db) S)) (Some k)))
           = (if fst (ditto_delete (snd (ditto_unsubscribe (Some db) S)) (Some k)) = 0
              then calls_except db i k else [])
       \<and> ditto_unsubscribe (snd (ditto_unsubscribe (Some db) S)) S
           = (-1, snd (ditto_unsubscribe (Some db) S))"
proof -
  let ?db' = "db\<lparr>subscriptions := (subscriptions db)
                (i := (subscriptions db i)\<lparr>active := 0, callback := NULL, user_data := NULL\<rparr>)\<rparr>"
  have r: "ditto_unsubscribe (Some db) S = (0, Some ?db')"
    by (rule ditto_unsubscribe_slot [OF assms(1)])
  have notify: "notify_subscribers ?db' k = calls_except db i k"
    by (rule notify_after_unsubscribe)
  have gone: "slot_of ?db' S = None"
    by (rule slot_gone [OF assms(2)])
  have put: "snd (snd (snd (ditto_put h (Some ?db') (Some k) d n)))
           = (if fst (ditto_put h (Some ?db') (Some k) d n) = 0 then calls_except db i k else [])"
    using notify by (simp add: ditto_put_def split: option.splits prod.splits)
  have del: "snd (snd (ditto_delete (Some ?db') (Some k)))
           = (if fst (ditto_delete (Some ?db') (Some k)) = 0 then calls_except db i k else [])"
    using notify by (simp add: ditto_delete_def split: option.splits prod.splits)
  have r1: "fst (ditto_unsubscribe (Some db) S) = 0" and r2: "snd (ditto_unsubscribe (Some db) S) = Some ?db'"
    by (simp_all only: r fst_conv snd_conv)
  show ?thesis
    unfolding r2 by (intro conjI r1 put del ditto_unsubscribe_no_slot [OF gone])
qed

lemma fst_ditto_put:
  "fst (ditto_put h (Some db) (Some k) (Some d) n) = fst (hash_table_put h (table db) k d n)"
  by (simp add: ditto_put_def split: prod.splits)

lemma unsubscribe_silences_example:
  "fst (ditto_unsubscribe (Some two_subs) 1) = 0
   \<and> snd (snd (snd (ditto_put [] (snd (ditto_unsubscribe (Some two_subs) 1))
        (Some ''x'') (Some [5, 6]) 2))) = [(Addr 12, NULL, ''x'')]
   \<and> ditto_unsubscribe (snd (ditto_unsubscribe (Some two_subs) 1)) 1
        = (-1, snd (ditto_unsubscribe (Some two_subs) 1))"
proof -
  let ?u = "ditto_unsubscribe (Some two_subs) 1"
  have slot: "slot_of two_subs 1 = Some 0"
    by (simp add: slot_of_def two_subs_def fresh_db_def MAX_SUBSCRIPTIONS_def upt_conv_Cons)
  have uniq: "\<forall>j \<in> set [0..<MAX_SUBSCRIPTIONS].
      active (subscriptions two_subs j) \<noteq> 0 \<and> id' (subscriptions two_subs j) = 1 \<longrightarrow> j = 0"
    by (simp add: two_subs_def fresh_db_def)
  note a = unsubscribe_silences [OF slot uniq, where h = "[]" and k = "''x''"
      and d = "Some [5, 6]" and n = 2]
  have calls: "calls_except two_subs 0 ''x'' = [(Addr 12, NULL, ''x'')]"
    by (simp add: calls_except_def two_subs_def fresh_db_def MAX_SUBSCRIPTIONS_def upt_conv_Cons
        notify_slot_def)
  obtain db' where u: "snd ?u = Some db'" and t: "table db' = table two_subs"
    by (simp add: ditto_unsubscribe_slot [OF slot])
  have "fst (hash_table_put [] (table two_subs) ''x'' [5, 6] 2) = 0"
    by (simp add: hash_table_put_def two_subs_def fresh_db_def)
  then have p: "fst (ditto_put [] (snd ?u) (Some ''x'') (Some [5, 6]) 2) = 0"
    by (simp only: u t fst_ditto_put)
  have 1: "fst ?u = 0"
    by (rule a [THEN conjunct1])
  have 2: "snd (snd (snd (ditto_put [] (snd ?u) (Some ''x'') (Some [5, 6]) 2)))
      = [(Addr 12, NULL, ''x'')]"
    by (simp only: a [THEN conjunct2, THEN conjunct1] p calls) simp
  have 3: "ditto_unsubscribe (snd ?u) 1 = (-1, snd ?u)"
    by (rule a [THEN conjunct2, THEN conjunct2, THEN conjunct2])
  show ?thesis
    by (intro conjI 1 2 3)
qed

section \<open>Subscription ids\<close>

lemma fresh_db_idle: "fresh_db = idle_db 0 1"
  by (simp add: idle_db_def fresh_db_def fun_eq_iff)

lemma upt_MAX_Cons: "[0..<MAX_SUBSCRIPTIONS] = 0 # [1..<MAX_SUBSCRIPTIONS]"
  by (simp add: MAX_SUBSCRIPTIONS_def upt_rec [of 0])

lemma ditto_subscribe_idle:
  assumes "cb \<noteq> NULL"
  shows "ditto_subscribe (Some (idle_db a c)) cb ud (Some x) =
     (0,
      Some ((idle_db a c)\<lparr>subscriptions := (subscriptions (idle_db a c))
                (0 := \<lparr>id' = c, callback = cb, user_data = ud, active = 1\<rparr>),
              next_sub_id := c + 1\<rparr>),
      Some c)"
  using assms by (simp add: ditto_subscribe_def upt_MAX_Cons) (simp add: idle_db_def)

lemma subscribe_unsubscribe_idle:
  "subscribe_unsubscribe (Some (idle_db a c)) = Some (idle_db c (c + 1))"
  by (simp add: subscribe_unsubscribe_def ditto_subscribe_idle ditto_unsubscribe_def upt_MAX_Cons)
     (simp add: idle_db_def)

lemma rounds_idle:
  "\<exists>a'. (subscribe_unsubscribe ^^ n) (Some (idle_db a c)) = Some (idle_db a' (c + of_nat n))"
proof (induction n)
  case 0
  show ?case by (rule exI [of _ a]) simp
next
  case (Suc n)
  then obtain a' where "(subscribe_unsubscribe ^^ n) (Some (idle_db a c)) = Some (idle_db a' (c + of_nat n))"
    by blast
  then have "(subscribe_unsubscribe ^^ Suc n) (Some (idle_db a c))
      = Some (idle_db (c + of_nat n) (c + of_nat (Suc n)))"
    by (simp add: subscribe_unsubscribe_idle ac_simps)
  then show ?case
    by (rule exI)
qed

lemma rounds_then_subscribe:
  "ditto_subscribe ((subscribe_unsubscribe ^^ n) (Some fresh_db)) (Addr 1) NULL (Some 0)
     = (0, fst (snd (ditto_subscribe ((subscribe_unsubscribe ^^ n) (Some fresh_db)) (Addr 1) NULL (Some 0))),
        Some (1 + of_nat n))"
proof -
  obtain a' where "(subscribe_unsubscribe ^^ n) (Some fresh_db) = Some (idle_db a' (1 + of_nat n))"
    using rounds_idle [of n 0 1] by (auto simp: fresh_db_idle)
  then show ?thesis
    by (simp add: ditto_subscribe_idle)
qed

text \<open>
  C5 (id allocation) fails where the 32-bit counter wraps around. On a fresh store, after
  2147483646 rounds of subscribe and unsubscribe the next subscribe succeeds with the id
  2147483647; after one more round the next subscribe succeeds with the id -2147483648,
  which is smaller than the one before and smaller than 1. The first subscribe on a
  fresh store is given the id 1, and after 4294967296 rounds a subscribe is given the
  id 1 again.
\<close>
theorem C5_id_counter_wraps:
  "fst (ditto_subscribe ((subscribe_unsubscribe ^^ 2147483646) (Some fresh_db)) (Addr 1) NULL (Some 0)) = 0
   \<and> map_option sint (snd (snd (ditto_subscribe
        ((subscribe_unsubscribe ^^ 2147483646) (Some fresh_db)) (Addr 1) NULL (Some 0))))
       = Some 2147483647
   \<and> fst (ditto_subscribe ((subscribe_unsubscribe ^^ 2147483647) (Some fresh_db)) (Addr 1) NULL (Some 0)) = 0
   \<and> map_option sint (snd (snd (ditto_subscribe
        ((subscribe_unsubscribe ^^ 2147483647) (Some fresh_db)) (Addr 1) NULL (Some 0))))
       = Some (- 2147483648)
   \<and> map_option sint (snd (snd (ditto_subscribe (Some fresh_db) (Addr 1) NULL (Some 0)))) = Some 1
   \<and> map_option sint (snd (snd (ditto_subscribe
        ((subscribe_unsubscribe ^^ 4294967296) (Some fresh_db)) (Addr 1) NULL (Some 0))))
       = Some 1"
proof -
  have w1: "(1 + of_nat 2147483646 :: int32) = 2147483647"
    and w2: "(1 + of_nat 2147483647 :: int32) = 2147483648"
    and w3: "(1 + of_nat 4294967296 :: int32) = 1"
    by simp_all
  have s1: "sint (2147483647 :: int32) = 2147483647"
    and s2: "sint (2147483648 :: int32) = - 2147483648"
    and s3: "sint (1 :: int32) = 1"
    by simp_all
  have a: "fst (ditto_subscribe ((subscribe_unsubscribe ^^ n) (Some fresh_db)) (Addr 1) NULL (Some 0)) = 0"
    and b: "map_option sint (snd (snd (ditto_subscribe
        ((subscribe_unsubscribe ^^ n) (Some fresh_db)) (Addr 1) NULL (Some 0))))
       = Some (sint (1 + of_nat n :: int32))" for n
    by (subst rounds_then_subscribe, simp)+
  have c: "map_option sint (snd (snd (ditto_subscribe (Some fresh_db) (Addr 1) NULL (Some 0)))) = Some 1"
    using b [of 0] by simp
  show ?thesis
    by (intro conjI a c) (simp_all only: b w1 w2 w3 s1 s2 s3)
qed

text \<open>
  Below the largest \<^verbatim>\<open>int32_t\<close> the increment is the successor.
\<close>
lemma sint_succ:
  fixes c :: int32
  assumes "sint c < 2147483647"
  shows "sint (c + 1) = sint c + 1"
proof -
  have "sint (c + 1) = signed_take_bit (LENGTH(32) - 1) (sint c + sint (1 :: int32))"
    by (rule sint_word_add)
  also have "\<dots> = signed_take_bit 31 (sint c + 1)"
    by simp
  also have "\<dots> = sint c + 1"
    using assms sint_ge [of c] by (intro signed_take_bit_int_eq_self) simp_all
  finally show ?thesis .
qed

text \<open>
  While the counter stays below 2147483647, the ids in use keep their invariant: a
  subscribe returns the counter, which exceeds every active id, and advances it by one.
\<close>
lemma ids_ok_fresh: "ids_ok fresh_db"
  by (simp add: ids_ok_def fresh_db_def)

lemma ids_okD:
  assumes "ids_ok db" and "i < MAX_SUBSCRIPTIONS" and "active (subscriptions db i) \<noteq> 0"
  shows "1 \<le> sint (id' (subscriptions db i))"
    and "sint (id' (subscriptions db i)) < sint (next_sub_id db)"
  using assms by (simp_all add: ids_ok_def)

lemma ids_ok_unique:
  assumes "ids_ok db" and "i < MAX_SUBSCRIPTIONS" and "j < MAX_SUBSCRIPTIONS"
    and "active (subscriptions db i) \<noteq> 0" and "active (subscriptions db j) \<noteq> 0"
    and "id' (subscriptions db i) = id' (subscriptions db j)"
  shows "i = j"
proof -
  from assms(1) have "\<forall>i \<in> set [0..<MAX_SUBSCRIPTIONS]. \<forall>j \<in> set [0..<MAX_SUBSCRIPTIONS].
        active (subscriptions db i) \<noteq> 0 \<and> active (subscriptions db j) \<noteq> 0 \<and>
        id' (subscriptions db i) = id' (subscriptions db j) \<longrightarrow> i = j"
    unfolding ids_ok_def by (elim conjE)
  moreover have "i \<in> set [0..<MAX_SUBSCRIPTIONS]" "j \<in> set [0..<MAX_SUBSCRIPTIONS]"
    using assms(2,3) by simp_all
  ultimately show ?thesis
    using assms(4-6) by blast
qed

lemma ids_okI:
  assumes "1 \<le> sint (next_sub_id db)"
    and "\<And>i. i < MAX_SUBSCRIPTIONS \<Longrightarrow> active (subscriptions db i) \<noteq> 0 \<Longrightarrow>
           1 \<le> sint (id' (subscriptions db i)) \<and> sint (id' (subscriptions db i)) < sint (next_sub_id db)"
    and "\<And>i j. i < MAX_SUBSCRIPTIONS \<Longrightarrow> j < MAX_SUBSCRIPTIONS \<Longrightarrow>
           active (subscriptions db i) \<noteq> 0 \<Longrightarrow> active (subscriptions db j) \<noteq> 0 \<Longrightarrow>
           id' (subscriptions db i) = id' (subscriptions db j) \<Longrightarrow> i = j"
  shows "ids_ok db"
  unfolding ids_ok_def
proof (intro conjI ballI impI)
  show "1 \<le> sint (next_sub_id db)" by (rule assms(1))
next
  fix i assume "i \<in> set [0..<MAX_SUBSCRIPTIONS]" "active (subscriptions db i) \<noteq> 0"
  then show "1 \<le> sint (id' (subscriptions db i))"
    and "sint (id' (subscriptions db i)) < sint (next_sub_id db)"
    using assms(2) [of i] by simp_all
next
  fix i j
  assume "i \<in> set [0..<MAX_SUBSCRIPTIONS]" "j \<in> set [0..<MAX_SUBSCRIPTIONS]"
    and "active (subscriptions db i) \<noteq> 0 \<and> active (subscriptions db j) \<noteq> 0 \<and>
        id' (subscriptions db i) = id' (subscriptions db j)"
  then show "i = j"
    using assms(3) [of i j] by simp
qed

lemma ids_ok_subscribe:
  assumes ok: "ids_ok db" and room: "sint (next_sub_id db) < 2147483647"
    and sub: "ditto_subscribe (Some db) cb ud (Some x) = (0, Some db', out)"
  shows "ids_ok db' \<and> out = Some (next_sub_id db)
       \<and> sint (next_sub_id db') = sint (next_sub_id db) + 1"
proof -
  from sub obtain k where
    k: "find (\<lambda>i. active (subscriptions db i) = 0) [0..<MAX_SUBSCRIPTIONS] = Some k"
    by (auto simp: ditto_subscribe_def split: if_splits option.splits)
  then have free: "active (subscriptions db k) = 0"
    by (auto simp: find_Some_iff)
  let ?new = "\<lparr>id' = next_sub_id db, callback = cb, user_data = ud, active = 1\<rparr>"
  from sub k have db': "db' = db\<lparr>subscriptions := (subscriptions db)(k := ?new),
                                next_sub_id := next_sub_id db + 1\<rparr>"
    and out: "out = Some (next_sub_id db)"
    by (auto simp: ditto_subscribe_def split: if_splits)
  have nxt: "sint (next_sub_id db') = sint (next_sub_id db) + 1"
    using sint_succ [OF room] by (simp add: db')
  have slot: "subscriptions db' i = (if i = k then ?new else subscriptions db i)" for i
    by (simp add: db')
  have "ids_ok db'"
  proof (rule ids_okI)
    show "1 \<le> sint (next_sub_id db')"
      using ok nxt by (simp add: ids_ok_def)
  next
    fix i assume i: "i < MAX_SUBSCRIPTIONS" "active (subscriptions db' i) \<noteq> 0"
    show "1 \<le> sint (id' (subscriptions db' i)) \<and>
          sint (id' (subscriptions db' i)) < sint (next_sub_id db')"
    proof (cases "i = k")
      case True
      then show ?thesis
        using ok nxt by (simp add: slot ids_ok_def)
    next
      case False
      with i ids_okD [OF ok, of i] nxt show ?thesis
        by (simp add: slot)
    qed
  next
    fix i j
    assume i: "i < MAX_SUBSCRIPTIONS" "active (subscriptions db' i) \<noteq> 0"
      and j: "j < MAX_SUBSCRIPTIONS" "active (subscriptions db' j) \<noteq> 0"
      and eq: "id' (subscriptions db' i) = id' (subscriptions db' j)"
    have old: "sint (id' (subscriptions db m)) \<noteq> sint (next_sub_id db)"
      if "m < MAX_SUBSCRIPTIONS" "m \<noteq> k" "active (subscriptions db' m) \<noteq> 0" for m
      using that ids_okD(2) [OF ok, of m] by (simp add: slot)
    show "i = j"
    proof (cases "i = k")
      case ik: True
      show ?thesis
      proof (cases "j = k")
        case True
        with ik show ?thesis by simp
      next
        case False
        with old [OF j(1) False j(2)] eq ik show ?thesis
          by (simp add: slot)
      qed
    next
      case ik: False
      show ?thesis
      proof (cases "j = k")
        case True
        with old [OF i(1) ik i(2)] eq ik show ?thesis
          by (simp add: slot)
      next
        case False
        with ik i j eq show ?thesis
          using ids_ok_unique [OF ok i(1) j(1)] by (simp add: slot)
      qed
    qed
  qed
  with out nxt show ?thesis by simp
qed

lemma ids_ok_unsubscribe:
  assumes ok: "ids_ok db" and unsub: "ditto_unsubscribe (Some db) S = (rc, Some db')"
  shows "ids_ok db'"
proof (cases "slot_of db S")
  case None
  with unsub ok show ?thesis
    by (simp add: ditto_unsubscribe_no_slot)
next
  case (Some k)
  let ?off = "(subscriptions db k)\<lparr>active := 0, callback := NULL, user_data := NULL\<rparr>"
  from unsub Some have db': "db' = db\<lparr>subscriptions := (subscriptions db)(k := ?off)\<rparr>"
    by (simp add: ditto_unsubscribe_slot)
  have slot: "subscriptions db' i = (if i = k then ?off else subscriptions db i)" for i
    by (simp add: db')
  have act: "active (subscriptions db i) \<noteq> 0 \<and> i \<noteq> k" if "active (subscriptions db' i) \<noteq> 0" for i
    using that by (cases "i = k") (simp_all add: slot)
  show ?thesis
  proof (rule ids_okI)
    show "1 \<le> sint (next_sub_id db')"
      using ok by (simp add: db' ids_ok_def)
  next
    fix i assume i: "i < MAX_SUBSCRIPTIONS" "active (subscriptions db' i) \<noteq> 0"
    with act [of i] ids_okD [OF ok, of i]
    show "1 \<le> sint (id' (subscriptions db' i)) \<and>
          sint (id' (subscriptions db' i)) < sint (next_sub_id db')"
      by (simp add: slot) (simp add: db')
  next
    fix i j
    assume i: "i < MAX_SUBSCRIPTIONS" "active (subscriptions db' i) \<noteq> 0"
      and j: "j < MAX_SUBSCRIPTIONS" "active (subscriptions db' j) \<noteq> 0"
      and eq: "id' (subscriptions db' i) = id' (subscriptions db' j)"
    from act [OF i(2)] act [OF j(2)] eq
    have "id' (subscriptions db i) = id' (subscriptions db j)"
      by (simp add: slot)
    with act [OF i(2)] act [OF j(2)] show "i = j"
      using ids_ok_unique [OF ok i(1) j(1)] by blast
  qed
qed

lemma ids_ok_sole_slot:
  assumes "ids_ok db" and "slot_of db S = Some i"
  shows "\<forall>j \<in> set [0..<MAX_SUBSCRIPTIONS].
           active (subscriptions db j) \<noteq> 0 \<and> id' (subscriptions db j) = S \<longrightarrow> j = i"
proof (intro ballI impI)
  fix j
  assume j: "j \<in> set [0..<MAX_SUBSCRIPTIONS]"
    and a: "active (subscriptions db j) \<noteq> 0 \<and> id' (subscriptions db j) = S"
  from assms(2) have i: "i < MAX_SUBSCRIPTIONS" "active (subscriptions db i) \<noteq> 0"
    "id' (subscriptions db i) = S"
    by (auto simp: slot_of_def find_Some_iff)
  from j have "j < MAX_SUBSCRIPTIONS" by simp
  from ids_ok_unique [OF assms(1) this i(1)] a i show "j = i"
    by simp
qed

section \<open>Unsubscribing after the id counter has wrapped\<close>

lemma upt_two: "2 \<le> n \<Longrightarrow> [0..<n] = 0 # Suc 0 # [Suc (Suc 0)..<n]"
  by (simp add: upt_conv_Cons)

lemma upt_MAX_Cons2: "[0..<MAX_SUBSCRIPTIONS] = 0 # Suc 0 # [Suc (Suc 0)..<MAX_SUBSCRIPTIONS]"
  by (rule upt_two) (simp add: MAX_SUBSCRIPTIONS_def)

lemma first_subscribe_kept:
  "fst (snd (ditto_subscribe (Some fresh_db) (Addr 2) NULL (Some 0))) = Some (kept_db 0 2)"
  by (simp add: ditto_subscribe_def upt_MAX_Cons2)
     (simp add: kept_db_def fresh_db_def fun_eq_iff)

lemma ditto_subscribe_kept:
  assumes "cb \<noteq> NULL"
  shows "ditto_subscribe (Some (kept_db a c)) cb ud (Some x) =
     (0,
      Some ((kept_db a c)\<lparr>subscriptions := (subscriptions (kept_db a c))
                (1 := \<lparr>id' = c, callback = cb, user_data = ud, active = 1\<rparr>),
              next_sub_id := c + 1\<rparr>),
      Some c)"
  using assms by (simp add: ditto_subscribe_def upt_MAX_Cons2) (simp add: kept_db_def)

lemma subscribe_unsubscribe_kept:
  assumes "c \<noteq> 1"
  shows "subscribe_unsubscribe (Some (kept_db a c)) = Some (kept_db c (c + 1))"
  using assms
  by (simp add: subscribe_unsubscribe_def ditto_subscribe_kept ditto_unsubscribe_def upt_MAX_Cons2)
     (simp add: kept_db_def)

lemma counter_not_back:
  assumes "n < 4294967295"
  shows "(2 + of_nat n :: int32) \<noteq> 1"
proof
  assume "(2 + of_nat n :: int32) = 1"
  then have "(of_nat (n + 2) :: int32) = of_nat 1"
    by (simp add: ac_simps)
  then have "take_bit 32 (n + 2) = take_bit 32 (1 :: nat)"
    by (simp only: word_of_nat_eq_iff) simp
  then have m: "(n + 2) mod 4294967296 = 1"
    by (simp add: take_bit_eq_mod)
  show False
  proof (cases "n + 2 = 4294967296")
    case True
    with m show False by simp
  next
    case False
    with assms have "n + 2 < 4294967296" by simp
    then have "(n + 2) mod 4294967296 = n + 2" by (rule mod_less)
    with m show False by simp
  qed
qed

lemma rounds_kept:
  assumes "n \<le> 4294967295"
  shows "\<exists>a'. (subscribe_unsubscribe ^^ n) (Some (kept_db a 2)) = Some (kept_db a' (2 + of_nat n))"
  using assms
proof (induction n)
  case 0
  show ?case by (rule exI [of _ a]) simp
next
  case (Suc n)
  then obtain a' where
    "(subscribe_unsubscribe ^^ n) (Some (kept_db a 2)) = Some (kept_db a' (2 + of_nat n))"
    by auto
  moreover from Suc.prems have "(2 + of_nat n :: int32) \<noteq> 1"
    by (intro counter_not_back) simp
  ultimately have "(subscribe_unsubscribe ^^ Suc n) (Some (kept_db a 2))
      = Some (kept_db (2 + of_nat n) (2 + of_nat (Suc n)))"
    by (simp add: subscribe_unsubscribe_kept ac_simps)
  then show ?case
    by (rule exI)
qed

lemma unsubscribe_twice_kept:
  "fst (ditto_unsubscribe
          (fst (snd (ditto_subscribe (Some (kept_db a 1)) (Addr 1) NULL (Some 0)))) 1) = 0
   \<and> fst (ditto_unsubscribe
          (snd (ditto_unsubscribe
             (fst (snd (ditto_subscribe (Some (kept_db a 1)) (Addr 1) NULL (Some 0)))) 1)) 1) = 0"
  by (simp add: ditto_subscribe_kept ditto_unsubscribe_def upt_MAX_Cons2)
     (simp add: kept_db_def)

lemma second_subscribe_kept:
  "snd (snd (ditto_subscribe (Some (kept_db a 1)) (Addr 1) NULL (Some 0))) = Some 1"
  by (simp add: ditto_subscribe_kept)

lemma first_subscribe_id:
  "snd (snd (ditto_subscribe (Some fresh_db) (Addr 2) NULL (Some 0))) = Some 1"
  by (simp add: ditto_subscribe_def upt_MAX_Cons2) (simp add: fresh_db_def)

text \<open>
  C9 (a second unsubscribe is not found) fails once the id counter has wrapped around.
  On a fresh store a first subscribe is given the id 1 and is kept. After 4294967295
  rounds of subscribe and unsubscribe a further subscribe is given the id 1 as well, so
  two active slots hold it. Then \<open>unsubscribe(1)\<close> returns 0, and a second \<open>unsubscribe(1)\<close>
  returns 0 again instead of the status of "subscription not found".
\<close>
theorem C9_second_unsubscribe_succeeds:
  "snd (snd (ditto_subscribe (Some fresh_db) (Addr 2) NULL (Some 0))) = Some 1
   \<and> snd (snd (ditto_subscribe
          ((subscribe_unsubscribe ^^ 4294967295)
             (fst (snd (ditto_subscribe (Some fresh_db) (Addr 2) NULL (Some 0)))))
          (Addr 1) NULL (Some 0))) = Some 1
   \<and> fst (ditto_unsubscribe
          (fst (snd (ditto_subscribe
             ((subscribe_unsubscribe ^^ 4294967295)
                (fst (snd (ditto_subscribe (Some fresh_db) (Addr 2) NULL (Some 0)))))
             (Addr 1) NULL (Some 0)))) 1) = 0
   \<and> fst (ditto_unsubscribe
          (snd (ditto_unsubscribe
             (fst (snd (ditto_subscribe
                ((subscribe_unsubscribe ^^ 4294967295)
                   (fst (snd (ditto_subscribe (Some fresh_db) (Addr 2) NULL (Some 0)))))
                (Addr 1) NULL (Some 0)))) 1)) 1) = 0"
proof -
  have w: "(2 + of_nat 4294967295 :: int32) = 1"
    by simp
  obtain a' where "(subscribe_unsubscribe ^^ 4294967295) (Some (kept_db 0 2)) = Some (kept_db a' 1)"
    using rounds_kept [of 4294967295 0] by (auto simp only: w)
  then show ?thesis
    by (simp only: first_subscribe_kept first_subscribe_id second_subscribe_kept
        unsubscribe_twice_kept simp_thms)
qed

end
